theory Spec2Isabelle
  imports Complex_Main "HOL-Library.Word" "HOL-Library.Multiset" "HOL-Library.Sublist"
begin

section \<open>JavaScript values\<close>

text \<open>
  A JavaScript string is a sequence of 16-bit code units; \<open>str\<close> turns an ASCII literal
  into one. A JavaScript \<open>number\<close> that takes part in arithmetic is modelled as a
  \<^typ>\<open>real\<close>: the finite values, with exact arithmetic (the rounding of IEEE-754
  doubles is modelled for the cosine similarity only, where a claim depends on it, in a
  subsection of its own). Where the code asks \<open>Number.isFinite\<close>, the
  argument is a \<open>number\<close> below, which also has the three non-finite values.
\<close>

type_synonym jschar = "16 word"
type_synonym jsstring = "jschar list"

definition str :: "string \<Rightarrow> jsstring" where
  "str s = map of_char s"

datatype number = Finite real | PosInfinity | NegInfinity | NaN

fun isFinite :: "number \<Rightarrow> bool" where
  "isFinite (Finite x) = True"
| "isFinite PosInfinity = False"
| "isFinite NegInfinity = False"
| "isFinite NaN = False"

section \<open>GuildFeatureConfigService: channel multipliers\<close>

text \<open>
  The service keeps a cache \<open>guildId \<rightarrow> config\<close> beside the database collection.
  Only the fields of the configuration document that the multiplier code reads or
  writes are kept. \<open>channelMultipliers\<close> may be missing from a document
  (\<open>config.channelMultipliers?.[channelId]\<close>), hence the option.
\<close>

record GuildFeatureConfig =
  guildId :: jsstring
  channelMultipliers :: "(jsstring \<rightharpoonup> real) option"

record ConfigState =
  db :: "jsstring \<rightharpoonup> GuildFeatureConfig"
  cache :: "jsstring \<rightharpoonup> GuildFeatureConfig"

text \<open>\<open>GuildFeatureConfig.create({ guildId })\<close>: the schema default of \<open>channelMultipliers\<close> is \<open>{}\<close>.\<close>

definition createConfig :: "jsstring \<Rightarrow> GuildFeatureConfig" where
  "createConfig g = \<lparr> guildId = g, channelMultipliers = Some Map.empty \<rparr>"

definition multipliersOf :: "GuildFeatureConfig \<Rightarrow> (jsstring \<rightharpoonup> real)" where
  "multipliersOf c = (case channelMultipliers c of None \<Rightarrow> Map.empty | Some m \<Rightarrow> m)"

text \<open>\<open>findOneAndUpdate({ guildId }, update, { upsert: true, new: true })\<close> followed by \<open>cache.set\<close>.\<close>

definition upsertAndCache :: "jsstring \<Rightarrow> (GuildFeatureConfig \<Rightarrow> GuildFeatureConfig) \<Rightarrow> ConfigState \<Rightarrow> ConfigState" where
  "upsertAndCache g upd st =
     (let doc = (case db st g of None \<Rightarrow> createConfig g | Some d \<Rightarrow> d);
          updated = upd doc
      in st\<lparr> db := (db st)(g \<mapsto> updated), cache := (cache st)(g \<mapsto> updated) \<rparr>)"

definition refresh :: "jsstring \<Rightarrow> ConfigState \<Rightarrow> ConfigState" where
  "refresh g st =
     (case db st g of
        None \<Rightarrow> st\<lparr> db := (db st)(g \<mapsto> createConfig g), cache := (cache st)(g \<mapsto> createConfig g) \<rparr>
      | Some config \<Rightarrow> st\<lparr> cache := (cache st)(g \<mapsto> config) \<rparr>)"

definition getChannelMultiplier :: "ConfigState \<Rightarrow> jsstring \<Rightarrow> jsstring \<Rightarrow> real" where
  "getChannelMultiplier st g channelId =
     (case cache st g of
        None \<Rightarrow> 1
      | Some config \<Rightarrow>
          (case channelMultipliers config of
             None \<Rightarrow> 1
           | Some m \<Rightarrow> (case m channelId of None \<Rightarrow> 1 | Some w \<Rightarrow> w)))"

text \<open>
  \<open>Math.max(0, Math.min(5, Number.isFinite(weight) ? weight : 1))\<close>, and the update
  \<open>$set: { [`channelMultipliers.${channelId}`]: sanitizedWeight }\<close>, which writes the entry
  of that channel (a channel id is a Discord snowflake, digits only, so the path has no
  further dot).
\<close>

definition sanitizeWeight :: "number \<Rightarrow> real" where
  "sanitizeWeight weight = max 0 (min 5 (case weight of Finite w \<Rightarrow> w | _ \<Rightarrow> 1))"

definition setChannelMultiplier :: "jsstring \<Rightarrow> jsstring \<Rightarrow> number \<Rightarrow> ConfigState \<Rightarrow> ConfigState" where
  "setChannelMultiplier g channelId weight st =
     upsertAndCache g
       (\<lambda>doc. doc\<lparr> channelMultipliers := Some ((multipliersOf doc)(channelId \<mapsto> sanitizeWeight weight)) \<rparr>) st"

text \<open>\<open>clearChannelMultiplier\<close>: no upsert; the cache is written only when a document was found.\<close>

definition clearChannelMultiplier :: "jsstring \<Rightarrow> jsstring \<Rightarrow> ConfigState \<Rightarrow> ConfigState" where
  "clearChannelMultiplier g channelId st =
     (case db st g of
        None \<Rightarrow> st
      | Some doc \<Rightarrow>
          (let updated = doc\<lparr> channelMultipliers := map_option (\<lambda>m. m(channelId := None)) (channelMultipliers doc) \<rparr>
           in st\<lparr> db := (db st)(g \<mapsto> updated), cache := (cache st)(g \<mapsto> updated) \<rparr>))"

text \<open>
  \<open>updateChannelMultipliers\<close>: the entries of the argument are sanitised one by one (an
  empty channel id is skipped) and merged over the existing map, which is read through
  the cache (\<open>listChannelMultipliers\<close> refreshes the cache on a miss).
\<close>

fun sanitizeEntries :: "(jsstring \<times> number) list \<Rightarrow> (jsstring \<rightharpoonup> real) \<Rightarrow> (jsstring \<rightharpoonup> real)" where
  "sanitizeEntries [] acc = acc"
| "sanitizeEntries ((channelId, weight) # rest) acc =
     (if channelId = [] then sanitizeEntries rest acc
      else sanitizeEntries rest (acc(channelId \<mapsto> sanitizeWeight weight)))"

definition updateChannelMultipliers :: "jsstring \<Rightarrow> (jsstring \<times> number) list \<Rightarrow> ConfigState \<Rightarrow> ConfigState" where
  "updateChannelMultipliers g multipliers st =
     (let st1 = (case cache st g of None \<Rightarrow> refresh g st | Some _ \<Rightarrow> st);
          existing = (case cache st1 g of None \<Rightarrow> Map.empty | Some config \<Rightarrow> multipliersOf config);
          merged = sanitizeEntries multipliers existing
      in upsertAndCache g (\<lambda>doc. doc\<lparr> channelMultipliers := Some merged \<rparr>) st1)"

text \<open>The operations of the service that write the collection or the cache.\<close>

datatype ConfigOp =
    Initialize jsstring
  | SetOtherField jsstring
  | SetChannelMultiplier jsstring jsstring number
  | ClearChannelMultiplier jsstring jsstring
  | UpdateChannelMultipliers jsstring "(jsstring \<times> number) list"

text \<open>
  \<open>initialize\<close> and \<open>refresh\<close> do the same to the state; \<open>SetOtherField\<close> stands for
  \<open>setHighlightChannelId\<close>, \<open>setErrorChannelId\<close> and \<open>updateOnboardingDefaults\<close>, which
  upsert the document without touching its multipliers.
\<close>

fun applyOp :: "ConfigOp \<Rightarrow> ConfigState \<Rightarrow> ConfigState" where
  "applyOp (Initialize g) st = refresh g st"
| "applyOp (SetOtherField g) st = upsertAndCache g (\<lambda>doc. doc) st"
| "applyOp (SetChannelMultiplier g c w) st = setChannelMultiplier g c w st"
| "applyOp (ClearChannelMultiplier g c) st = clearChannelMultiplier g c st"
| "applyOp (UpdateChannelMultipliers g ms) st = updateChannelMultipliers g ms st"

fun runOps :: "ConfigOp list \<Rightarrow> ConfigState \<Rightarrow> ConfigState" where
  "runOps [] st = st"
| "runOps (operation # rest) st = runOps rest (applyOp operation st)"

definition emptyState :: ConfigState where
  "emptyState = \<lparr> db = Map.empty, cache = Map.empty \<rparr>"

text \<open>Every multiplier held by a document of the collection or of the cache lies in \<open>[0, 5]\<close>.\<close>

definition configBounded :: "GuildFeatureConfig \<Rightarrow> bool" where
  "configBounded c = (\<forall>w \<in> ran (multipliersOf c). 0 \<le> w \<and> w \<le> 5)"

definition stateBounded :: "ConfigState \<Rightarrow> bool" where
  "stateBounded st = ((\<forall>c \<in> ran (db st). configBounded c) \<and> (\<forall>c \<in> ran (cache st). configBounded c))"

subsection \<open>Properties\<close>

lemma sanitizeWeight_range: "0 \<le> sanitizeWeight w \<and> sanitizeWeight w \<le> 5"
  by (cases w) (simp_all add: sanitizeWeight_def)

lemma sanitizeWeight_nonfinite: "\<not> isFinite w \<Longrightarrow> sanitizeWeight w = 1"
  by (cases w) (simp_all add: sanitizeWeight_def)

lemma configBounded_create: "configBounded (createConfig g)"
  by (simp add: configBounded_def createConfig_def multipliersOf_def)

lemma ran_upd_bounded:
  assumes "\<forall>c \<in> ran m. P c" and "P d"
  shows "\<forall>c \<in> ran (m(k \<mapsto> d)). P c"
proof
  fix c assume "c \<in> ran (m(k \<mapsto> d))"
  then obtain k' where k': "(m(k \<mapsto> d)) k' = Some c" by (auto simp: ran_def)
  show "P c"
  proof (cases "k' = k")
    case True
    with k' assms(2) show ?thesis by simp
  next
    case False
    with k' have "m k' = Some c" by simp
    then have "c \<in> ran m" by (auto simp: ran_def)
    with assms(1) show ?thesis by blast
  qed
qed

lemma ran_del_bounded:
  assumes "\<forall>c \<in> ran m. P c"
  shows "\<forall>c \<in> ran (m(k := None)). P c"
proof
  fix c assume "c \<in> ran (m(k := None))"
  then obtain k' where "(m(k := None)) k' = Some c" by (auto simp: ran_def)
  then have "m k' = Some c" by (cases "k' = k") simp_all
  then have "c \<in> ran m" by (auto simp: ran_def)
  with assms show "P c" by blast
qed

lemma stateBounded_upsert:
  assumes st: "stateBounded st"
    and upd: "\<And>doc. configBounded doc \<Longrightarrow> configBounded (upd doc)"
  shows "stateBounded (upsertAndCache g upd st)"
proof -
  let ?doc = "case db st g of None \<Rightarrow> createConfig g | Some d \<Rightarrow> d"
  have "configBounded ?doc"
  proof (cases "db st g")
    case None
    then show ?thesis by (simp add: configBounded_create)
  next
    case (Some d)
    then have "d \<in> ran (db st)" by (auto simp: ran_def)
    with st Some show ?thesis by (simp add: stateBounded_def)
  qed
  then have u: "configBounded (upd ?doc)" by (rule upd)
  from st have a: "\<forall>c \<in> ran (db st). configBounded c" and b: "\<forall>c \<in> ran (cache st). configBounded c"
    by (simp_all add: stateBounded_def)
  show ?thesis
    using ran_upd_bounded [OF a u, of g] ran_upd_bounded [OF b u, of g]
    by (simp add: stateBounded_def upsertAndCache_def Let_def)
qed

lemma stateBounded_refresh:
  assumes st: "stateBounded st"
  shows "stateBounded (refresh g st)"
proof -
  from st have a: "\<forall>c \<in> ran (db st). configBounded c" and b: "\<forall>c \<in> ran (cache st). configBounded c"
    by (simp_all add: stateBounded_def)
  show ?thesis
  proof (cases "db st g")
    case None
    then show ?thesis
      using ran_upd_bounded [OF a configBounded_create, of g g] ran_upd_bounded [OF b configBounded_create, of g g]
      by (simp add: stateBounded_def refresh_def)
  next
    case (Some d)
    then have "d \<in> ran (db st)" by (auto simp: ran_def)
    with a have "configBounded d" by blast
    with Some show ?thesis
      using a ran_upd_bounded [OF b, of d g]
      by (simp add: stateBounded_def refresh_def)
  qed
qed

lemma configBounded_set:
  assumes "configBounded doc"
  shows "configBounded (doc\<lparr> channelMultipliers := Some ((multipliersOf doc)(c \<mapsto> sanitizeWeight w)) \<rparr>)"
proof -
  from assms have "\<forall>v \<in> ran (multipliersOf doc). 0 \<le> v \<and> v \<le> 5" by (simp add: configBounded_def)
  from ran_upd_bounded [OF this, of "sanitizeWeight w" c] sanitizeWeight_range [of w]
  show ?thesis by (simp add: configBounded_def multipliersOf_def)
qed

lemma configBounded_clear:
  assumes "configBounded doc"
  shows "configBounded (doc\<lparr> channelMultipliers := map_option (\<lambda>m. m(c := None)) (channelMultipliers doc) \<rparr>)"
proof (cases "channelMultipliers doc")
  case None
  then show ?thesis by (simp add: configBounded_def multipliersOf_def)
next
  case (Some m)
  with assms have "\<forall>v \<in> ran m. 0 \<le> v \<and> v \<le> 5" by (simp add: configBounded_def multipliersOf_def)
  then have "\<forall>v \<in> ran (m(c := None)). 0 \<le> v \<and> v \<le> 5" by (rule ran_del_bounded)
  moreover have "multipliersOf (doc\<lparr> channelMultipliers := map_option (\<lambda>m. m(c := None)) (channelMultipliers doc) \<rparr>) = m(c := None)"
    using Some by (simp add: multipliersOf_def)
  ultimately show ?thesis unfolding configBounded_def by simp
qed

lemma sanitizeEntries_bounded:
  "\<forall>v \<in> ran acc. 0 \<le> v \<and> v \<le> 5 \<Longrightarrow> \<forall>v \<in> ran (sanitizeEntries ms acc). 0 \<le> v \<and> v \<le> (5::real)"
proof (induction ms acc rule: sanitizeEntries.induct)
  case (1 acc)
  then show ?case by simp
next
  case (2 channelId weight rest acc)
  show ?case
  proof (cases "channelId = []")
    case True
    have "\<forall>v \<in> ran (sanitizeEntries rest acc). 0 \<le> v \<and> v \<le> 5"
      by (rule "2.IH"(1) [OF True "2.prems"])
    moreover have "sanitizeEntries ((channelId, weight) # rest) acc = sanitizeEntries rest acc"
      using True by simp
    ultimately show ?thesis by (simp only:)
  next
    case False
    have r: "0 \<le> sanitizeWeight weight \<and> sanitizeWeight weight \<le> 5" by (rule sanitizeWeight_range)
    have "\<forall>v \<in> ran (acc(channelId \<mapsto> sanitizeWeight weight)). 0 \<le> v \<and> v \<le> 5"
      by (rule ran_upd_bounded [OF "2.prems" r])
    then have "\<forall>v \<in> ran (sanitizeEntries rest (acc(channelId \<mapsto> sanitizeWeight weight))). 0 \<le> v \<and> v \<le> 5"
      by (rule "2.IH"(2) [OF False])
    moreover have "sanitizeEntries ((channelId, weight) # rest) acc = sanitizeEntries rest (acc(channelId \<mapsto> sanitizeWeight weight))"
      using False by simp
    ultimately show ?thesis by (simp only:)
  qed
qed

lemma stateBounded_set: "stateBounded st \<Longrightarrow> stateBounded (setChannelMultiplier g c w st)"
  unfolding setChannelMultiplier_def
  by (rule stateBounded_upsert) (simp_all add: configBounded_set)

lemma stateBounded_clear:
  assumes st: "stateBounded st"
  shows "stateBounded (clearChannelMultiplier g c st)"
proof (cases "db st g")
  case None
  with st show ?thesis by (simp add: clearChannelMultiplier_def)
next
  case (Some doc)
  then have "doc \<in> ran (db st)" by (auto simp: ran_def)
  with st have "configBounded doc" by (simp add: stateBounded_def)
  then have u: "configBounded (doc\<lparr> channelMultipliers := map_option (\<lambda>m. m(c := None)) (channelMultipliers doc) \<rparr>)"
    by (rule configBounded_clear)
  from st have a: "\<forall>c \<in> ran (db st). configBounded c" and b: "\<forall>c \<in> ran (cache st). configBounded c"
    by (simp_all add: stateBounded_def)
  show ?thesis
    using Some ran_upd_bounded [OF a u, of g] ran_upd_bounded [OF b u, of g]
    by (simp add: stateBounded_def clearChannelMultiplier_def Let_def)
qed

lemma stateBounded_update:
  assumes st: "stateBounded st"
  shows "stateBounded (updateChannelMultipliers g ms st)"
proof -
  define st1 where "st1 = (case cache st g of None \<Rightarrow> refresh g st | Some _ \<Rightarrow> st)"
  define existing where "existing = (case cache st1 g of None \<Rightarrow> Map.empty | Some config \<Rightarrow> multipliersOf config)"
  have st1: "stateBounded st1"
    using st stateBounded_refresh [OF st, of g] by (simp add: st1_def split: option.splits)
  have "\<forall>v \<in> ran existing. 0 \<le> v \<and> v \<le> 5"
  proof (cases "cache st1 g")
    case None
    then show ?thesis by (simp add: existing_def)
  next
    case (Some config)
    then have "config \<in> ran (cache st1)" by (auto simp: ran_def)
    with st1 have "configBounded config" by (simp add: stateBounded_def)
    with Some show ?thesis by (simp add: existing_def configBounded_def)
  qed
  then have m: "\<forall>v \<in> ran (sanitizeEntries ms existing). 0 \<le> v \<and> v \<le> 5"
    by (rule sanitizeEntries_bounded)
  have "stateBounded (upsertAndCache g (\<lambda>doc. doc\<lparr> channelMultipliers := Some (sanitizeEntries ms existing) \<rparr>) st1)"
    using st1 by (rule stateBounded_upsert) (use m in \<open>simp add: configBounded_def multipliersOf_def\<close>)
  then show ?thesis
    by (simp add: updateChannelMultipliers_def Let_def st1_def existing_def)
qed

lemma stateBounded_applyOp: "stateBounded st \<Longrightarrow> stateBounded (applyOp operation st)"
proof (cases operation)
  case (SetOtherField g)
  assume "stateBounded st"
  then have "stateBounded (upsertAndCache g (\<lambda>doc. doc) st)"
    by (rule stateBounded_upsert) simp
  with SetOtherField show ?thesis by simp
qed (simp_all add: stateBounded_refresh stateBounded_set stateBounded_clear stateBounded_update)

lemma stateBounded_runOps: "stateBounded st \<Longrightarrow> stateBounded (runOps ops st)"
  by (induction ops arbitrary: st) (simp_all add: stateBounded_applyOp)

lemma stateBounded_empty: "stateBounded emptyState"
  by (simp add: stateBounded_def emptyState_def)

lemma getChannelMultiplier_default:
  assumes "cache st g = None \<or> (\<exists>config. cache st g = Some config \<and> multipliersOf config c = None)"
  shows "getChannelMultiplier st g c = 1"
proof (cases "cache st g")
  case None
  then show ?thesis by (simp add: getChannelMultiplier_def)
next
  case (Some config)
  with assms have m: "multipliersOf config c = None" by simp
  show ?thesis
  proof (cases "channelMultipliers config")
    case None
    with Some show ?thesis by (simp add: getChannelMultiplier_def)
  next
    case (Some m')
    with m have "m' c = None" by (simp add: multipliersOf_def)
    with Some \<open>cache st g = Some config\<close> show ?thesis by (simp add: getChannelMultiplier_def)
  qed
qed

lemma cache_after_upsert:
  "cache (upsertAndCache g upd st) g = Some (upd (case db st g of None \<Rightarrow> createConfig g | Some d \<Rightarrow> d))"
  by (simp add: upsertAndCache_def Let_def)

lemma getChannelMultiplier_after_set:
  "getChannelMultiplier (setChannelMultiplier g c w st) g c = sanitizeWeight w"
  unfolding getChannelMultiplier_def setChannelMultiplier_def cache_after_upsert
  by simp

text \<open>
  Claim C9. A channel that is absent from the guild's multiplier map, or whose guild has
  no cached configuration, gets the multiplier 1. Every multiplier that the service
  stores lies in \<open>[0, 5]\<close>: the bound holds in every state reached from a bounded one by
  the operations of the service, the value read back after \<open>setChannelMultiplier\<close> is the
  sanitised weight, and a non-finite weight is replaced by 1.
\<close>

theorem channel_multiplier_default_and_range:
  "((cache st g = None \<or> (\<exists>config. cache st g = Some config \<and> multipliersOf config c = None))
      \<longrightarrow> getChannelMultiplier st g c = 1)
   \<and> (stateBounded st \<longrightarrow> stateBounded (runOps ops st))
   \<and> getChannelMultiplier (setChannelMultiplier g c w st) g c = sanitizeWeight w
   \<and> 0 \<le> sanitizeWeight w \<and> sanitizeWeight w \<le> 5
   \<and> (\<not> isFinite w \<longrightarrow> sanitizeWeight w = 1)"
  using getChannelMultiplier_default [of st g c] stateBounded_runOps [of st ops]
    getChannelMultiplier_after_set [of g c w st] sanitizeWeight_range [of w]
    sanitizeWeight_nonfinite [of w]
  by blast

theorem channel_multiplier_default_and_range_witness:
  "cache emptyState (str ''g1'') = None
   \<and> getChannelMultiplier emptyState (str ''g1'') (str ''c1'') = 1
   \<and> stateBounded emptyState
   \<and> stateBounded (runOps [SetChannelMultiplier (str ''g1'') (str ''c1'') (Finite 7),
         UpdateChannelMultipliers (str ''g1'') [(str ''c2'', NaN)]] emptyState)
   \<and> getChannelMultiplier (setChannelMultiplier (str ''g1'') (str ''c1'') PosInfinity emptyState) (str ''g1'') (str ''c1'') = 1
   \<and> \<not> isFinite PosInfinity"
proof -
  have c: "cache emptyState (str ''g1'') = None" by (simp add: emptyState_def)
  have f: "\<not> isFinite PosInfinity" by simp
  from channel_multiplier_default_and_range
         [of emptyState "str ''g1''" "str ''c1''"
             "[SetChannelMultiplier (str ''g1'') (str ''c1'') (Finite 7),
               UpdateChannelMultipliers (str ''g1'') [(str ''c2'', NaN)]]" PosInfinity]
       c f stateBounded_empty
  show ?thesis by simp
qed

section \<open>Arrays and Maps of the runtime\<close>

text \<open>
  \<open>Array.prototype.sort(compare)\<close> is stable (ECMAScript 2019): it is modelled as an
  insertion sort that puts an element before the first one it does not compare greater
  than, so elements that compare equal keep their order.
\<close>

fun insertBy :: "('a \<Rightarrow> 'a \<Rightarrow> real) \<Rightarrow> 'a \<Rightarrow> 'a list \<Rightarrow> 'a list" where
  "insertBy cmp x [] = [x]"
| "insertBy cmp x (y # ys) = (if cmp x y \<le> 0 then x # y # ys else y # insertBy cmp x ys)"

definition sortBy :: "('a \<Rightarrow> 'a \<Rightarrow> real) \<Rightarrow> 'a list \<Rightarrow> 'a list" where
  "sortBy cmp xs = foldr (insertBy cmp) xs []"

text \<open>
  A \<open>Map\<close> iterates in insertion order, and \<open>set\<close> on a key that is present keeps the
  key's place: an association list with distinct keys.
\<close>

type_synonym ('k, 'v) jsmap = "('k \<times> 'v) list"

fun mapSet :: "('k, 'v) jsmap \<Rightarrow> 'k \<Rightarrow> 'v \<Rightarrow> ('k, 'v) jsmap" where
  "mapSet [] k v = [(k, v)]"
| "mapSet ((k', v') # m) k v = (if k' = k then (k, v) # m else (k', v') # mapSet m k v)"

text \<open>\<open>m.set(k, (m.get(k) ?? 0) + w)\<close>\<close>

definition mapAdd :: "('k, real) jsmap \<Rightarrow> 'k \<Rightarrow> real \<Rightarrow> ('k, real) jsmap" where
  "mapAdd m k w = mapSet m k ((case map_of m k of None \<Rightarrow> 0 | Some v \<Rightarrow> v) + w)"

text \<open>\<open>m.get(k) ?? 0\<close>\<close>

definition getOr0 :: "('k, real) jsmap \<Rightarrow> 'k \<Rightarrow> real" where
  "getOr0 m k = (case map_of m k of None \<Rightarrow> 0 | Some v \<Rightarrow> v)"

text \<open>A \<open>Set\<close> iterates in insertion order; adding a member again changes nothing.\<close>

definition setAdd :: "'a list \<Rightarrow> 'a \<Rightarrow> 'a list" where
  "setAdd s x = (if x \<in> set s then s else s @ [x])"

definition newSet :: "'a list \<Rightarrow> 'a list" where
  "newSet xs = foldl setAdd [] xs"

subsection \<open>Facts about the sort\<close>

lemma insertBy_insort_key:
  assumes "\<And>x y. cmp x y \<le> 0 \<longleftrightarrow> f x \<le> f y"
  shows "insertBy cmp x ys = insort_key f x ys"
  by (induction ys) (simp_all add: assms)

lemma sortBy_sort_key:
  assumes "\<And>x y. cmp x y \<le> 0 \<longleftrightarrow> f x \<le> f y"
  shows "sortBy cmp xs = sort_key f xs"
  by (induction xs) (simp_all add: sortBy_def insertBy_insort_key [OF assms])

lemma mset_insertBy: "mset (insertBy cmp x ys) = add_mset x (mset ys)"
  by (induction ys) simp_all

lemma mset_sortBy: "mset (sortBy cmp xs) = mset xs"
  by (induction xs) (simp_all add: sortBy_def mset_insertBy)

lemma set_sortBy: "set (sortBy cmp xs) = set xs"
  using mset_sortBy [of cmp xs] by (metis set_mset_mset)

lemma length_sortBy: "length (sortBy cmp xs) = length xs"
  using mset_sortBy [of cmp xs] by (metis size_mset)

section \<open>ThreadScoringService\<close>

record TopicHitMetric =
  slug :: jsstring
  keywordHits :: real
  bigramHits :: real
  boost :: real

record MessageForSummary =
  msgId :: jsstring
  authorUsername :: jsstring
  content :: jsstring
  timestamp :: int
  url :: jsstring

text \<open>A \<open>Date\<close> is its time value, the milliseconds since the epoch (\<open>getTime()\<close>).\<close>

record ThreadFeature =
  key :: jsstring
  featureGuildId :: jsstring
  channelId :: jsstring
  threadId :: "jsstring option"
  parentChannelId :: "jsstring option"
  uniqueParticipants :: real
  messageCount :: real
  reactionWeighted :: real
  topicHits :: "TopicHitMetric list"
  linkCount :: real
  decisionVerbHits :: real
  hasLinks :: bool
  firstMessageAt :: int
  lastMessageAt :: int
  matchedKeywords :: "jsstring list"
  messages :: "MessageForSummary list"

record Breakdown =
  participants :: real
  messageCount_b :: real
  reactions :: real
  topicHits_b :: real
  links :: real
  decisions :: real
  timeDecay :: real

record ThreadScore =
  feature :: ThreadFeature
  score :: real
  breakdown :: Breakdown

text \<open>
  \<open>hit.boost ?? 1\<close>: \<open>boost\<close> is declared a \<open>number\<close>, so the default never applies to
  a value of the declared type.
\<close>

definition computeTopicHitScore :: "ThreadFeature \<Rightarrow> real" where
  "computeTopicHitScore f =
     foldl (\<lambda>total hit.
              (let keywordWeight = keywordHits hit * 2;
                   bigramWeight = bigramHits hit * 4
               in total + (keywordWeight + bigramWeight) * boost hit))
           0 (topicHits f)"

text \<open>The body of the \<open>map\<close> callback of \<open>scoreThreads\<close>; \<open>now\<close> is \<open>Date.now()\<close>.\<close>

definition scoreFeature :: "ConfigState \<Rightarrow> int \<Rightarrow> jsstring \<Rightarrow> ThreadFeature \<Rightarrow> ThreadScore" where
  "scoreFeature st now g f =
     (let participants = 1.2 * uniqueParticipants f;
          messageCount = ln (1 + messageCount f);
          reactions = 0.8 * reactionWeighted f;
          topicHits = 1.3 * computeTopicHitScore f;
          links = 1.1 * (if hasLinks f then 2 else 0);
          decisions = 1.4 * decisionVerbHits f * 3;
          hoursSinceLast = real_of_int (now - lastMessageAt f) / (1000 * 60 * 60);
          timeDecay = max 0 (hoursSinceLast / 72);
          rawScore = participants + messageCount + reactions + topicHits + links + decisions - timeDecay;
          multiplier = getChannelMultiplier st g (channelId f)
      in \<lparr> feature = f,
           score = rawScore * multiplier,
           breakdown = \<lparr> participants = participants, messageCount_b = messageCount,
                         reactions = reactions, topicHits_b = topicHits, links = links,
                         decisions = decisions, timeDecay = timeDecay \<rparr> \<rparr>)"

definition scoreThreads :: "ConfigState \<Rightarrow> int \<Rightarrow> jsstring \<Rightarrow> ThreadFeature list \<Rightarrow> ThreadScore list" where
  "scoreThreads st now g features =
     sortBy (\<lambda>a b. score b - score a) (map (scoreFeature st now g) features)"

subsection \<open>Properties\<close>



lemma scoreThreads_sort_key:
  "scoreThreads st now g features = sort_key (\<lambda>s. - score s) (map (scoreFeature st now g) features)"
  unfolding scoreThreads_def by (rule sortBy_sort_key) simp





definition exampleFeature :: ThreadFeature where
  "exampleFeature =
     \<lparr> key = str ''t1'', featureGuildId = str ''g1'', channelId = str ''c1'', threadId = None,
       parentChannelId = None, uniqueParticipants = 4, messageCount = 5, reactionWeighted = 0,
       topicHits = [], linkCount = 0, decisionVerbHits = 0, hasLinks = False,
       firstMessageAt = 0, lastMessageAt = 1000, matchedKeywords = [], messages = [] \<rparr>"


text \<open>
  Claim C7. The list returned by \<open>scoreThreads\<close> is in descending order of score, and
  the sort is stable: the entries of any one score appear in the order of their features
  in the input.
\<close>

theorem scoreThreads_sorted_stable:
  "sorted_wrt (\<lambda>a b. score a \<ge> score b) (scoreThreads st now g features)
   \<and> filter (\<lambda>ts. score ts = v) (scoreThreads st now g features)
       = filter (\<lambda>ts. score ts = v) (map (scoreFeature st now g) features)
   \<and> mset (scoreThreads st now g features) = mset (map (scoreFeature st now g) features)"
proof -
  let ?xs = "map (scoreFeature st now g) features"
  have "sorted (map (\<lambda>s. - score s) (sort_key (\<lambda>s. - score s) ?xs))"
    by (rule sorted_sort_key)
  then have "sorted_wrt (\<lambda>a b. - score a \<le> - score b) (sort_key (\<lambda>s. - score s) ?xs)"
    by (simp only: sorted_map)
  then have a: "sorted_wrt (\<lambda>a b. score a \<ge> score b) (scoreThreads st now g features)"
    by (simp add: scoreThreads_sort_key)
  have "filter (\<lambda>ts. - score ts = - v) (sort_key (\<lambda>s. - score s) ?xs) = filter (\<lambda>ts. - score ts = - v) ?xs"
    by (rule sort_key_stable)
  then have b: "filter (\<lambda>ts. score ts = v) (scoreThreads st now g features) = filter (\<lambda>ts. score ts = v) ?xs"
    by (simp add: scoreThreads_sort_key)
  have c: "mset (scoreThreads st now g features) = mset ?xs"
    by (simp only: scoreThreads_def mset_sortBy)
  from a b c show ?thesis by blast
qed

section \<open>ThemeClusterService\<close>

record ThreadCluster =
  clusterId :: jsstring
  label :: jsstring
  members :: "ThreadScore list"
  topTokens :: "jsstring list"

record ThemeAnalysis =
  clusters :: "ThreadCluster list"
  globalTopTokens :: "(jsstring \<times> real) list"

type_synonym vector = "(jsstring, real) jsmap"

definition buildVector :: "ThreadScore \<Rightarrow> vector" where
  "buildVector s =
     (let v1 = foldl (\<lambda>vector hit.
                        (let weight = (keywordHits hit * 2 + bigramHits hit * 4) * boost hit
                         in if weight \<le> 0 then vector else mapAdd vector (slug hit) weight))
                     [] (topicHits (feature s))
      in foldl (\<lambda>vector keyword. mapAdd vector keyword 1) v1 (matchedKeywords (feature s)))"

text \<open>One step of the loop over the shared tokens: the running \<open>dot\<close>, \<open>normA\<close>, \<open>normB\<close>.\<close>

definition cosineStep :: "vector \<Rightarrow> vector \<Rightarrow> real \<times> real \<times> real \<Rightarrow> jsstring \<Rightarrow> real \<times> real \<times> real" where
  "cosineStep a b acc token =
     (case acc of (dot, normA, normB) \<Rightarrow>
        (let valueA = getOr0 a token; valueB = getOr0 b token
         in (dot + valueA * valueB, normA + valueA * valueA, normB + valueB * valueB)))"

definition cosineSimilarity :: "vector \<Rightarrow> vector \<Rightarrow> real" where
  "cosineSimilarity a b =
     (let shared = newSet (map fst a @ map fst b)
      in case foldl (cosineStep a b) (0, 0, 0) shared of
           (dot, normA, normB) \<Rightarrow>
             if normA = 0 \<or> normB = 0 then 0 else dot / (sqrt normA * sqrt normB))"

text \<open>The separator of the template literal, code unit by code unit as the source file has it.\<close>

definition labelSeparator :: jsstring where
  "labelSeparator = [0x20, 0xC2, 0xB7, 0x20]"

definition buildLabel :: "ThreadScore list \<Rightarrow> jsstring" where
  "buildLabel scores =
     (if scores = [] then str ''general''
      else
        (let tokens = foldl (\<lambda>tokens s.
                               foldl (\<lambda>tokens hit.
                                        (let weight = keywordHits hit + bigramHits hit * 2
                                         in mapAdd tokens (slug hit) weight))
                                     tokens (topicHits (feature s)))
                            [] scores;
             sorted = sortBy (\<lambda>a b. snd b - snd a) tokens
         in case sorted of
              first # second # _ \<Rightarrow> fst first @ labelSeparator @ fst second
            | [only] \<Rightarrow> fst only
            | [] \<Rightarrow> str ''general''))"

definition topTokensForCluster :: "nat list \<Rightarrow> vector list \<Rightarrow> nat \<Rightarrow> jsstring list" where
  "topTokensForCluster indices vectors n =
     (let totals = foldl (\<lambda>totals index.
                            foldl (\<lambda>totals (token, weight). mapAdd totals token weight)
                                  totals (vectors ! index))
                         [] indices
      in map fst (take n (sortBy (\<lambda>a b. snd b - snd a) totals)))"

text \<open>The decimal digits of an index, for the template literal \<open>cluster-${i}\<close>.\<close>

fun natToString :: "nat \<Rightarrow> jsstring" where
  "natToString n = (if n < 10 then [of_nat (48 + n)] else natToString (n div 10) @ [of_nat (48 + n mod 10)])"

declare natToString.simps [simp del]

text \<open>
  The inner loop of \<open>analyze\<close>, over the indices \<open>j\<close> after the seed: it returns the
  member indices and the visited set.
\<close>

fun absorb :: "vector \<Rightarrow> vector list \<Rightarrow> nat list \<Rightarrow> nat list \<Rightarrow> nat set \<Rightarrow> nat list \<times> nat set" where
  "absorb seedVector vectors [] membersAcc visited = (membersAcc, visited)"
| "absorb seedVector vectors (j # js) membersAcc visited =
     (if j \<in> visited then absorb seedVector vectors js membersAcc visited
      else
        (let similarity = cosineSimilarity seedVector (vectors ! j)
         in if similarity \<ge> 0.2
            then absorb seedVector vectors js (membersAcc @ [j]) (insert j visited)
            else absorb seedVector vectors js membersAcc visited))"

text \<open>The outer loop, over the indices \<open>i\<close> that are left; it is started on \<open>[0..<scores.length]\<close>.\<close>

fun clusterLoop ::
  "ThreadScore list \<Rightarrow> vector list \<Rightarrow> nat list \<Rightarrow> nat set \<Rightarrow> ThreadCluster list \<Rightarrow> ThreadCluster list" where
  "clusterLoop scores vectors [] visited clustersAcc = clustersAcc"
| "clusterLoop scores vectors (i # rest) visited clustersAcc =
     (if i \<in> visited then clusterLoop scores vectors rest visited clustersAcc
      else
        (let seedVector = vectors ! i
         in case absorb seedVector vectors [i + 1 ..< length scores] [i] (insert i visited) of
              (memberIndices, visited') \<Rightarrow>
                (let clusterScores = map (\<lambda>index. scores ! index) memberIndices;
                     label = buildLabel clusterScores;
                     topTokens = topTokensForCluster memberIndices vectors 2
                 in clusterLoop scores vectors rest visited'
                      (clustersAcc @ [\<lparr> clusterId = str ''cluster-'' @ natToString i, label = label,
                                      members = clusterScores, topTokens = topTokens \<rparr>]))))"

definition analyze :: "ThreadScore list \<Rightarrow> ThemeAnalysis" where
  "analyze scores =
     (if scores = [] then \<lparr> clusters = [], globalTopTokens = [] \<rparr>
      else
        (let vectors = map buildVector scores;
             globalCounts = foldl (\<lambda>globalCounts vector.
                                     foldl (\<lambda>globalCounts (token, weight). mapAdd globalCounts token weight)
                                           globalCounts vector)
                                  [] vectors;
             clusters = clusterLoop scores vectors [0 ..< length scores] {} [];
             globalTopTokens = take 10 (sortBy (\<lambda>a b. snd b - snd a) globalCounts)
         in \<lparr> clusters = clusters, globalTopTokens = globalTopTokens \<rparr>))"

subsection \<open>The clusters partition the input\<close>

text \<open>
  The member indices alone, as the two loops of \<open>analyze\<close> produce them: \<open>clusterLoop\<close>
  without the labels and tokens.
\<close>

fun clusterIndices :: "vector list \<Rightarrow> nat \<Rightarrow> nat list \<Rightarrow> nat set \<Rightarrow> nat list list" where
  "clusterIndices vectors n [] visited = []"
| "clusterIndices vectors n (i # rest) visited =
     (if i \<in> visited then clusterIndices vectors n rest visited
      else
        (case absorb (vectors ! i) vectors [i + 1 ..< n] [i] (insert i visited) of
           (memberIndices, visited') \<Rightarrow> memberIndices # clusterIndices vectors n rest visited'))"

definition memberIndexLists :: "ThreadScore list \<Rightarrow> nat list list" where
  "memberIndexLists scores =
     clusterIndices (map buildVector scores) (length scores) [0 ..< length scores] {}"

text \<open>The test of the inner loop, for a seed vector and a visited set.\<close>

definition absorbs :: "vector \<Rightarrow> vector list \<Rightarrow> nat set \<Rightarrow> nat \<Rightarrow> bool" where
  "absorbs seed vs visited j = (j \<notin> visited \<and> cosineSimilarity seed (vs ! j) \<ge> 0.2)"

lemma absorb_filter:
  "distinct js \<Longrightarrow>
   absorb seed vs js ms visited =
     (ms @ filter (absorbs seed vs visited) js, visited \<union> set (filter (absorbs seed vs visited) js))"
proof (induction js arbitrary: ms visited)
  case Nil
  then show ?case by simp
next
  case (Cons j js)
  from Cons.prems have d: "distinct js" and nj: "j \<notin> set js" by simp_all
  show ?case
  proof (cases "j \<in> visited")
    case True
    then have "\<not> absorbs seed vs visited j" by (simp add: absorbs_def)
    then show ?thesis using True by (simp add: Cons.IH [OF d])
  next
    case False
    show ?thesis
    proof (cases "cosineSimilarity seed (vs ! j) \<ge> 0.2")
      case True
      have p: "absorbs seed vs visited j" using False True by (simp add: absorbs_def)
      have eq: "filter (absorbs seed vs (insert j visited)) js = filter (absorbs seed vs visited) js"
        using nj by (intro filter_cong) (auto simp: absorbs_def)
      have "absorb seed vs (j # js) ms visited = absorb seed vs js (ms @ [j]) (insert j visited)"
        using False True by (simp add: Let_def)
      also have "\<dots> = ((ms @ [j]) @ filter (absorbs seed vs visited) js,
                        insert j visited \<union> set (filter (absorbs seed vs visited) js))"
        by (simp only: Cons.IH [OF d] eq)
      also have "\<dots> = (ms @ filter (absorbs seed vs visited) (j # js),
                        visited \<union> set (filter (absorbs seed vs visited) (j # js)))"
        using p by simp
      finally show ?thesis .
    next
      case sim: False
      then have "\<not> absorbs seed vs visited j" by (simp add: absorbs_def)
      moreover have "absorb seed vs (j # js) ms visited = absorb seed vs js ms visited"
        using False sim by (simp add: Let_def)
      ultimately show ?thesis by (simp add: Cons.IH [OF d])
    qed
  qed
qed

lemma clusterLoop_members:
  "map members (clusterLoop scores vectors is visited acc)
     = map members acc @ map (map (\<lambda>i. scores ! i)) (clusterIndices vectors (length scores) is visited)"
proof (induction "is" arbitrary: visited acc)
  case Nil
  then show ?case by simp
next
  case (Cons i rest)
  show ?case
  proof (cases "i \<in> visited")
    case True
    then show ?thesis by (simp add: Cons.IH)
  next
    case False
    obtain ms v' where a: "absorb (vectors ! i) vectors [i + 1 ..< length scores] [i] (insert i visited) = (ms, v')"
      by (cases "absorb (vectors ! i) vectors [i + 1 ..< length scores] [i] (insert i visited)")
    show ?thesis using False a by (simp add: Let_def Cons.IH)
  qed
qed

lemma mset_filter_split:
  "mset (filter P xs) = mset (filter (\<lambda>x. P x \<and> Q x) xs) + mset (filter (\<lambda>x. P x \<and> \<not> Q x) xs)"
  by (induction xs) simp_all

lemma clusterIndices_partition:
  "mset (concat (clusterIndices vectors n [k ..< n] visited)) = mset (filter (\<lambda>i. i \<notin> visited) [k ..< n])"
proof (induction "n - k" arbitrary: k visited)
  case 0
  then show ?case by simp
next
  case (Suc d)
  then have kn: "k < n" and d: "d = n - Suc k" by simp_all
  have up: "[k ..< n] = k # [Suc k ..< n]" using kn by (simp add: upt_conv_Cons)
  show ?case
  proof (cases "k \<in> visited")
    case True
    have "clusterIndices vectors n [k ..< n] visited = clusterIndices vectors n [Suc k ..< n] visited"
      using True by (simp add: up)
    moreover have "filter (\<lambda>i. i \<notin> visited) [k ..< n] = filter (\<lambda>i. i \<notin> visited) [Suc k ..< n]"
      using True by (simp add: up)
    ultimately show ?thesis using Suc.hyps(1) [OF d, of visited] by (simp only:)
  next
    case False
    define P where "P = absorbs (vectors ! k) vectors (insert k visited)"
    define taken where "taken = filter P [Suc k ..< n]"
    define v' where "v' = insert k visited \<union> set taken"
    have a: "absorb (vectors ! k) vectors [k + 1 ..< n] [k] (insert k visited) = (k # taken, v')"
      using absorb_filter [of "[Suc k ..< n]" "vectors ! k" vectors "[k]" "insert k visited"]
      by (simp add: P_def taken_def v'_def)
    have ih: "mset (concat (clusterIndices vectors n [Suc k ..< n] v')) = mset (filter (\<lambda>i. i \<notin> v') [Suc k ..< n])"
      by (rule Suc.hyps(1) [OF d])
    have f1: "filter (\<lambda>i. i \<notin> v') [Suc k ..< n] = filter (\<lambda>i. i \<notin> visited \<and> \<not> P i) [Suc k ..< n]"
      by (intro filter_cong) (auto simp: v'_def taken_def P_def absorbs_def)
    have f2: "taken = filter (\<lambda>i. i \<notin> visited \<and> P i) [Suc k ..< n]"
      unfolding taken_def by (intro filter_cong) (auto simp: P_def absorbs_def)
    have split: "mset (filter (\<lambda>i. i \<notin> visited) [Suc k ..< n])
                   = mset taken + mset (filter (\<lambda>i. i \<notin> v') [Suc k ..< n])"
      unfolding f1 f2 by (rule mset_filter_split)
    have "clusterIndices vectors n [k ..< n] visited = (k # taken) # clusterIndices vectors n [Suc k ..< n] v'"
      using False a by (simp add: up)
    then have "mset (concat (clusterIndices vectors n [k ..< n] visited))
            = add_mset k (mset taken + mset (concat (clusterIndices vectors n [Suc k ..< n] v')))"
      by simp
    also have "\<dots> = add_mset k (mset (filter (\<lambda>i. i \<notin> visited) [Suc k ..< n]))"
      by (simp only: ih split)
    also have "\<dots> = mset (filter (\<lambda>i. i \<notin> visited) [k ..< n])"
      using False by (simp add: up)
    finally show ?thesis .
  qed
qed

lemma memberIndexLists_partition: "mset (concat (memberIndexLists scores)) = mset [0 ..< length scores]"
  unfolding memberIndexLists_def clusterIndices_partition by simp

lemma analyze_members:
  "map members (clusters (analyze scores)) = map (map (\<lambda>i. scores ! i)) (memberIndexLists scores)"
proof (cases "scores = []")
  case True
  then show ?thesis by (simp add: analyze_def memberIndexLists_def)
next
  case False
  then show ?thesis
    using clusterLoop_members [of scores "map buildVector scores" "[0 ..< length scores]" "{}" "[]"]
    by (simp add: analyze_def Let_def memberIndexLists_def)
qed

text \<open>
  Claim C2. The members of the clusters returned by \<open>analyze\<close> are the input scores at
  the positions of \<open>memberIndexLists\<close>, and every position \<open>0 .. length - 1\<close> of the
  input occurs in these index lists exactly once, taken all together: no position is in
  two clusters or twice in one, and none is left out. Hence the members of all clusters
  together are the input list as a multiset.
\<close>

theorem analyze_partition:
  "map members (clusters (analyze scores)) = map (map (\<lambda>i. scores ! i)) (memberIndexLists scores)
   \<and> mset (concat (memberIndexLists scores)) = mset [0 ..< length scores]
   \<and> distinct (concat (memberIndexLists scores))
   \<and> mset (concat (map members (clusters (analyze scores)))) = mset scores"
proof -
  have p: "mset (concat (memberIndexLists scores)) = mset [0 ..< length scores]"
    by (rule memberIndexLists_partition)
  have d: "distinct (concat (memberIndexLists scores))"
    using p by (metis distinct_upt mset_eq_imp_distinct_iff)
  have "concat (map members (clusters (analyze scores))) = map (\<lambda>i. scores ! i) (concat (memberIndexLists scores))"
    by (simp only: analyze_members map_concat)
  then have "mset (concat (map members (clusters (analyze scores)))) = image_mset (\<lambda>i. scores ! i) (mset [0 ..< length scores])"
    by (simp only: mset_map p)
  also have "\<dots> = mset (map (\<lambda>i. scores ! i) [0 ..< length scores])" by simp
  also have "\<dots> = mset scores" by (simp only: map_nth)
  finally show ?thesis using p d analyze_members [of scores] by blast
qed

subsection \<open>Cosine similarity\<close>

text \<open>
  The similarity as a real number, every operation exact. The numbers of the code are
  doubles; the next subsections round every operation and compare the result with the
  exact one of this subsection.
\<close>

lemma set_foldl_setAdd: "set (foldl setAdd acc xs) = set acc \<union> set xs"
  by (induction xs arbitrary: acc) (auto simp: setAdd_def)

lemma distinct_foldl_setAdd: "distinct acc \<Longrightarrow> distinct (foldl setAdd acc xs)"
  by (induction xs arbitrary: acc) (auto simp: setAdd_def)

lemma set_newSet: "set (newSet xs) = set xs"
  by (simp add: newSet_def set_foldl_setAdd)

lemma distinct_newSet: "distinct (newSet xs)"
  by (simp add: newSet_def distinct_foldl_setAdd)

lemma foldl_cosineStep:
  "foldl (cosineStep a b) (d, na, nb) ts =
     (d + (\<Sum>t\<leftarrow>ts. getOr0 a t * getOr0 b t),
      na + (\<Sum>t\<leftarrow>ts. getOr0 a t * getOr0 a t),
      nb + (\<Sum>t\<leftarrow>ts. getOr0 b t * getOr0 b t))"
  by (induction ts arbitrary: d na nb) (simp_all add: cosineStep_def Let_def algebra_simps)

text \<open>The three sums of the loop, over the set of tokens of both vectors.\<close>

definition tokenSet :: "vector \<Rightarrow> vector \<Rightarrow> jsstring set" where
  "tokenSet a b = set (map fst a) \<union> set (map fst b)"

definition dotProduct :: "vector \<Rightarrow> vector \<Rightarrow> real" where
  "dotProduct a b = (\<Sum>t \<in> tokenSet a b. getOr0 a t * getOr0 b t)"

definition squaredNorm :: "vector \<Rightarrow> real" where
  "squaredNorm a = (\<Sum>t \<in> set (map fst a). getOr0 a t * getOr0 a t)"

lemma getOr0_outside: "t \<notin> set (map fst a) \<Longrightarrow> getOr0 a t = 0"
  by (simp add: getOr0_def map_of_eq_None_iff [THEN iffD2])

lemma squaredNorm_over_tokenSet:
  "(\<Sum>t \<in> tokenSet a b. getOr0 a t * getOr0 a t) = squaredNorm a"
  "(\<Sum>t \<in> tokenSet a b. getOr0 b t * getOr0 b t) = squaredNorm b"
  unfolding squaredNorm_def tokenSet_def
  by (rule sum.mono_neutral_right; auto simp: getOr0_outside)+

lemma cosineSimilarity_sums:
  "cosineSimilarity a b =
     (if squaredNorm a = 0 \<or> squaredNorm b = 0 then 0
      else dotProduct a b / (sqrt (squaredNorm a) * sqrt (squaredNorm b)))"
proof -
  let ?S = "newSet (map fst a @ map fst b)"
  have s: "set ?S = tokenSet a b" by (simp add: set_newSet tokenSet_def)
  have d: "distinct ?S" by (rule distinct_newSet)
  have sums: "\<And>f::jsstring \<Rightarrow> real. (\<Sum>t\<leftarrow>?S. f t) = (\<Sum>t \<in> tokenSet a b. f t)"
    using sum_list_distinct_conv_sum_set [OF d] s by simp
  have "foldl (cosineStep a b) (0, 0, 0) ?S = (dotProduct a b, squaredNorm a, squaredNorm b)"
    by (simp only: foldl_cosineStep sums dotProduct_def squaredNorm_over_tokenSet add_0)
  then show ?thesis by (simp add: cosineSimilarity_def Let_def)
qed

lemma dotProduct_commute: "dotProduct a b = dotProduct b a"
  by (simp add: dotProduct_def tokenSet_def Un_commute mult.commute)

lemma cosineSimilarity_commute: "cosineSimilarity a b = cosineSimilarity b a"
  by (simp add: cosineSimilarity_sums dotProduct_commute [of a b] mult.commute disj_commute)

lemma sum_Cauchy_Schwarz:
  fixes f g :: "'a \<Rightarrow> real"
  assumes "finite K"
  shows "(\<Sum>t\<in>K. f t * g t)\<^sup>2 \<le> (\<Sum>t\<in>K. f t * f t) * (\<Sum>t\<in>K. g t * g t)"
proof -
  define A where "A = (\<Sum>t\<in>K. f t * f t)"
  define B where "B = (\<Sum>t\<in>K. f t * g t)"
  define C where "C = (\<Sum>t\<in>K. g t * g t)"
  have quad: "0 \<le> x * x * A - 2 * x * B + C" for x
  proof -
    have "0 \<le> (\<Sum>t\<in>K. (x * f t - g t)\<^sup>2)" by (intro sum_nonneg) simp
    also have "(\<Sum>t\<in>K. (x * f t - g t)\<^sup>2) = (\<Sum>t\<in>K. x * x * (f t * f t) - 2 * x * (f t * g t) + g t * g t)"
      by (intro sum.cong) (simp_all add: power2_eq_square algebra_simps)
    also have "\<dots> = x * x * A - 2 * x * B + C"
      by (simp add: sum.distrib sum_subtractf sum_distrib_left A_def B_def C_def)
    finally show ?thesis .
  qed
  have A0: "0 \<le> A" unfolding A_def by (intro sum_nonneg) simp
  show ?thesis
  proof (cases "A = 0")
    case True
    then have "\<forall>t\<in>K. f t * f t = 0"
      unfolding A_def using assms by (subst (asm) sum_nonneg_eq_0_iff) simp_all
    then have "B = 0" unfolding B_def by (intro sum.neutral) simp
    then show ?thesis using True by (simp add: A_def B_def)
  next
    case False
    with A0 have Apos: "0 < A" by simp
    from quad [of "B / A"] have "0 \<le> B * B / A - 2 * (B * B / A) + C"
      using Apos by (simp add: field_simps)
    then have "B * B / A \<le> C" by simp
    then have "B * B \<le> A * C" using Apos by (simp add: field_simps)
    then show ?thesis by (simp add: A_def B_def C_def power2_eq_square)
  qed
qed

lemma dotProduct_Cauchy_Schwarz: "(dotProduct a b)\<^sup>2 \<le> squaredNorm a * squaredNorm b"
proof -
  have "finite (tokenSet a b)" by (simp add: tokenSet_def)
  from sum_Cauchy_Schwarz [OF this, of "getOr0 a" "getOr0 b"]
  show ?thesis by (simp only: dotProduct_def squaredNorm_over_tokenSet)
qed

lemma squaredNorm_nonneg: "0 \<le> squaredNorm a"
  unfolding squaredNorm_def by (intro sum_nonneg) simp

lemma cosineSimilarity_le_1: "cosineSimilarity a b \<le> 1"
proof (cases "squaredNorm a = 0 \<or> squaredNorm b = 0")
  case True
  then show ?thesis by (simp add: cosineSimilarity_sums)
next
  case False
  then have pa: "0 < squaredNorm a" and pb: "0 < squaredNorm b"
    using squaredNorm_nonneg [of a] squaredNorm_nonneg [of b] by simp_all
  have "dotProduct a b \<le> sqrt (squaredNorm a * squaredNorm b)"
    by (rule real_le_rsqrt) (rule dotProduct_Cauchy_Schwarz)
  then have "dotProduct a b \<le> sqrt (squaredNorm a) * sqrt (squaredNorm b)"
    by (simp only: real_sqrt_mult)
  moreover have "0 < sqrt (squaredNorm a) * sqrt (squaredNorm b)" using pa pb by simp
  ultimately have "dotProduct a b / (sqrt (squaredNorm a) * sqrt (squaredNorm b)) \<le> 1"
    by (simp add: divide_le_eq)
  with False show ?thesis by (simp add: cosineSimilarity_sums)
qed

text \<open>A vector with entries that are not negative, as \<open>buildVector\<close> makes them.\<close>

definition nonnegVector :: "vector \<Rightarrow> bool" where
  "nonnegVector a = (\<forall>p \<in> set a. 0 \<le> snd p)"

lemma getOr0_nonneg: "nonnegVector a \<Longrightarrow> 0 \<le> getOr0 a t"
proof (cases "map_of a t")
  case None
  then show ?thesis by (simp add: getOr0_def)
next
  case (Some w)
  assume "nonnegVector a"
  moreover from Some have "(t, w) \<in> set a" by (rule map_of_SomeD)
  ultimately have "0 \<le> w" by (auto simp: nonnegVector_def)
  with Some show ?thesis by (simp add: getOr0_def)
qed

lemma cosineSimilarity_nonneg:
  assumes "nonnegVector a" and "nonnegVector b"
  shows "0 \<le> cosineSimilarity a b"
proof -
  have "0 \<le> dotProduct a b"
    unfolding dotProduct_def by (intro sum_nonneg mult_nonneg_nonneg getOr0_nonneg assms)
  then have "0 \<le> dotProduct a b / (sqrt (squaredNorm a) * sqrt (squaredNorm b))"
    by (intro divide_nonneg_nonneg mult_nonneg_nonneg) (simp_all add: squaredNorm_nonneg)
  then show ?thesis by (simp add: cosineSimilarity_sums)
qed

lemma nonnegVector_mapSet: "nonnegVector m \<Longrightarrow> 0 \<le> v \<Longrightarrow> nonnegVector (mapSet m k v)"
proof (induction m)
  case Nil
  then show ?case by (simp add: nonnegVector_def)
next
  case (Cons x m)
  obtain k' v' where x: "x = (k', v')" by (cases x)
  from Cons.prems(1) have m: "nonnegVector m" and v': "0 \<le> v'"
    by (simp_all add: nonnegVector_def x)
  from Cons.IH [OF m Cons.prems(2)] have ih: "nonnegVector (mapSet m k v)" .
  show ?case
  proof (cases "k' = k")
    case True
    with m Cons.prems(2) show ?thesis by (simp add: nonnegVector_def x)
  next
    case False
    with ih v' show ?thesis by (simp add: nonnegVector_def x)
  qed
qed

lemma nonnegVector_mapAdd: "nonnegVector m \<Longrightarrow> 0 \<le> w \<Longrightarrow> nonnegVector (mapAdd m k w)"
  unfolding mapAdd_def
  using getOr0_nonneg [of m k] by (intro nonnegVector_mapSet) (simp_all add: getOr0_def)

lemma nonnegVector_foldl:
  assumes "nonnegVector m" and "\<And>m x. nonnegVector m \<Longrightarrow> nonnegVector (f m x)"
  shows "nonnegVector (foldl f m xs)"
  using assms(1) by (induction xs arbitrary: m) (simp_all add: assms(2))

lemma nonnegVector_buildVector: "nonnegVector (buildVector s)"
proof -
  let ?f = "\<lambda>vector hit.
              (let weight = (keywordHits hit * 2 + bigramHits hit * 4) * boost hit
               in if weight \<le> 0 then vector else mapAdd vector (slug hit) weight)"
  have e: "nonnegVector []" by (simp add: nonnegVector_def)
  have "nonnegVector (foldl ?f [] (topicHits (feature s)))"
    by (rule nonnegVector_foldl [OF e]) (simp add: Let_def nonnegVector_mapAdd)
  then have "nonnegVector (foldl (\<lambda>vector keyword. mapAdd vector keyword 1)
                            (foldl ?f [] (topicHits (feature s))) (matchedKeywords (feature s)))"
    by (rule nonnegVector_foldl) (simp add: nonnegVector_mapAdd)
  then show ?thesis by (simp only: buildVector_def Let_def)
qed

text \<open>The norm of a vector: the root of the sum of the squares of its entries.\<close>

definition vectorNorm :: "vector \<Rightarrow> real" where
  "vectorNorm a = sqrt (\<Sum>p\<leftarrow>a. snd p * snd p)"

lemma vectorNorm_zero_entries:
  assumes "vectorNorm a = 0"
  shows "\<forall>p \<in> set a. snd p = 0"
proof -
  have nn: "0 \<le> (\<Sum>p\<leftarrow>xs. snd p * snd p)" for xs :: vector
    by (induction xs) simp_all
  have z: "(\<Sum>p\<leftarrow>xs. snd p * snd p) = 0 \<Longrightarrow> \<forall>p \<in> set xs. snd p = 0" for xs :: vector
  proof (induction xs)
    case Nil
    then show ?case by simp
  next
    case (Cons x xs)
    have "snd x * snd x + (\<Sum>p\<leftarrow>xs. snd p * snd p) = 0" using Cons.prems by simp
    then have "snd x * snd x = 0 \<and> (\<Sum>p\<leftarrow>xs. snd p * snd p) = 0"
      by (subst (asm) add_nonneg_eq_0_iff) (simp_all add: nn)
    with Cons.IH show ?case by simp
  qed
  have "0 \<le> (\<Sum>p\<leftarrow>a. snd p * snd p)" by (rule nn)
  with assms have "(\<Sum>p\<leftarrow>a. snd p * snd p) = 0" by (simp add: vectorNorm_def)
  then show ?thesis by (rule z)
qed

lemma vectorNorm_zero_squaredNorm:
  assumes "vectorNorm a = 0"
  shows "squaredNorm a = 0"
proof -
  have "getOr0 a t = 0" for t
  proof (cases "map_of a t")
    case None
    then show ?thesis by (simp add: getOr0_def)
  next
    case (Some w)
    then have "(t, w) \<in> set a" by (rule map_of_SomeD)
    with vectorNorm_zero_entries [OF assms] have "w = 0" by auto
    with Some show ?thesis by (simp add: getOr0_def)
  qed
  then show ?thesis by (simp add: squaredNorm_def)
qed

lemma cosineSimilarity_zero_norm:
  "vectorNorm a = 0 \<or> vectorNorm b = 0 \<Longrightarrow> cosineSimilarity a b = 0"
  using vectorNorm_zero_squaredNorm [of a] vectorNorm_zero_squaredNorm [of b]
  by (auto simp: cosineSimilarity_sums)

lemma cosineSimilarity_disjoint:
  assumes "set (map fst a) \<inter> set (map fst b) = {}"
  shows "cosineSimilarity a b = 0"
proof -
  have "getOr0 a t * getOr0 b t = 0" for t
  proof (cases "t \<in> set (map fst a)")
    case True
    with assms have "t \<notin> set (map fst b)" by auto
    then show ?thesis by (simp add: getOr0_outside)
  next
    case False
    then show ?thesis by (simp add: getOr0_outside)
  qed
  then have "\<forall>t \<in> tokenSet a b. getOr0 a t * getOr0 b t = 0" by (intro ballI)
  then have "dotProduct a b = 0" unfolding dotProduct_def by (rule sum.neutral)
  then show ?thesis by (simp add: cosineSimilarity_sums)
qed

text \<open>A scored thread with the given topic hits and matched keywords, for the examples.\<close>

definition exampleScore :: "TopicHitMetric list \<Rightarrow> jsstring list \<Rightarrow> ThreadScore" where
  "exampleScore hits kws =
     scoreFeature emptyState 1000 (str ''g1'') (exampleFeature\<lparr> topicHits := hits, matchedKeywords := kws \<rparr>)"

subsection \<open>Cosine similarity in double arithmetic\<close>

text \<open>
  The numbers of the code are IEEE-754 doubles, and \<open>buildVector\<close> and
  \<open>cosineSimilarity\<close> round after every operation. \<open>roundDouble\<close> is rounding to the
  nearest number with a 53-bit significand, ties to even. It is what the machine does as
  long as the exact result of the operation is zero or of a magnitude from \<open>2^-1022\<close> to
  \<open>2^1023\<close>: there the result is a normal double. Outside of that (overflow to
  \<open>Infinity\<close>, subnormal results, \<open>NaN\<close>) the operations below return \<open>None\<close> and
  nothing is said about the code. The sum, product and quotient of two doubles and the
  square root of a double (\<open>Math.sqrt\<close>, the correctly rounded root in the engines) are
  the rounded exact results.
\<close>

definition roundHalfEven :: "real \<Rightarrow> int" where
  "roundHalfEven y =
     (let f = \<lfloor>y\<rfloor>; r = y - of_int f
      in if r < 1 / 2 then f else if r > 1 / 2 then f + 1 else if even f then f else f + 1)"

definition roundDouble :: "real \<Rightarrow> real" where
  "roundDouble x =
     (if x = 0 then 0
      else (let e = \<lfloor>log 2 \<bar>x\<bar>\<rfloor>; ulp = 2 powr (of_int e - 52)
            in sgn x * (of_int (roundHalfEven (\<bar>x\<bar> / ulp)) * ulp)))"

definition normalDouble :: "real \<Rightarrow> bool" where
  "normalDouble x = (x = 0 \<or> (1 / 2 ^ 1022 \<le> \<bar>x\<bar> \<and> \<bar>x\<bar> \<le> 2 ^ 1023))"

definition roundNormal :: "real \<Rightarrow> real option" where
  "roundNormal x = (if normalDouble x then Some (roundDouble x) else None)"

definition addDouble :: "real \<Rightarrow> real \<Rightarrow> real option" where
  "addDouble x y = roundNormal (x + y)"

definition mulDouble :: "real \<Rightarrow> real \<Rightarrow> real option" where
  "mulDouble x y = roundNormal (x * y)"

definition divDouble :: "real \<Rightarrow> real \<Rightarrow> real option" where
  "divDouble x y = (if y = 0 then None else roundNormal (x / y))"

definition sqrtDouble :: "real \<Rightarrow> real option" where
  "sqrtDouble x = (if x < 0 then None else roundNormal (sqrt x))"

text \<open>\<open>vector.set(k, (vector.get(k) ?? 0) + w)\<close> and \<open>buildVector\<close>, with every operation rounded.\<close>

definition mapAddDouble :: "vector \<Rightarrow> jsstring \<Rightarrow> real \<Rightarrow> vector option" where
  "mapAddDouble m k w = map_option (mapSet m k) (addDouble (getOr0 m k) w)"

definition buildVectorDouble :: "ThreadScore \<Rightarrow> vector option" where
  "buildVectorDouble s =
     (let v1 = foldl (\<lambda>vector hit. Option.bind vector (\<lambda>vector.
                        Option.bind (mulDouble (keywordHits hit) 2) (\<lambda>keywordWeight.
                        Option.bind (mulDouble (bigramHits hit) 4) (\<lambda>bigramWeight.
                        Option.bind (addDouble keywordWeight bigramWeight) (\<lambda>hitWeight.
                        Option.bind (mulDouble hitWeight (boost hit)) (\<lambda>weight.
                          if weight \<le> 0 then Some vector else mapAddDouble vector (slug hit) weight))))))
                     (Some []) (topicHits (feature s))
      in foldl (\<lambda>vector keyword. Option.bind vector (\<lambda>vector. mapAddDouble vector keyword 1))
               v1 (matchedKeywords (feature s)))"

text \<open>\<open>cosineSimilarity\<close>, with every operation rounded: one step of the loop, and the function.\<close>

definition cosineStepDouble ::
  "vector \<Rightarrow> vector \<Rightarrow> (real \<times> real \<times> real) option \<Rightarrow> jsstring \<Rightarrow> (real \<times> real \<times> real) option" where
  "cosineStepDouble a b acc token =
     Option.bind acc (\<lambda>(dot, normA, normB).
       (let valueA = getOr0 a token; valueB = getOr0 b token
        in Option.bind (mulDouble valueA valueB) (\<lambda>ab. Option.bind (addDouble dot ab) (\<lambda>dot'.
           Option.bind (mulDouble valueA valueA) (\<lambda>aa. Option.bind (addDouble normA aa) (\<lambda>normA'.
           Option.bind (mulDouble valueB valueB) (\<lambda>bb. Option.bind (addDouble normB bb) (\<lambda>normB'.
             Some (dot', normA', normB')))))))))"

definition cosineSimilarityDouble :: "vector \<Rightarrow> vector \<Rightarrow> real option" where
  "cosineSimilarityDouble a b =
     (let shared = newSet (map fst a @ map fst b)
      in Option.bind (foldl (cosineStepDouble a b) (Some (0, 0, 0)) shared) (\<lambda>(dot, normA, normB).
           if normA = 0 \<or> normB = 0 then Some 0
           else Option.bind (sqrtDouble normA) (\<lambda>rootA. Option.bind (sqrtDouble normB) (\<lambda>rootB.
                Option.bind (mulDouble rootA rootB) (\<lambda>denominator. divDouble dot denominator)))))"

text \<open>
  Half a unit in the last place, relative to the result: the most that one rounding
  changes a number by.
\<close>

definition unitRoundoff :: real where
  "unitRoundoff = 1 / 2 ^ 53"

text \<open>A computed sum \<open>s\<close> of terms that are not negative, within \<open>k\<close> roundings of the exact sum \<open>X\<close>.\<close>

definition enclosed :: "nat \<Rightarrow> real \<Rightarrow> real \<Rightarrow> bool" where
  "enclosed k X s = ((1 - unitRoundoff) ^ k * X \<le> s \<and> s \<le> (1 + unitRoundoff) ^ k * X)"

text \<open>
  The factor by which the computed similarity of two vectors with \<open>n\<close> tokens between
  them can be off the exact one: \<open>n + 1\<close> roundings in each of the three sums and a few
  more in the roots, the product and the quotient.
\<close>

definition roundingFactor :: "nat \<Rightarrow> real" where
  "roundingFactor n = ((1 + unitRoundoff) / (1 - unitRoundoff)) ^ (n + 4)"

text \<open>A thread with three matched keywords and no topic hit; every entry of its vector is 1.\<close>

definition threeKeywords :: ThreadScore where
  "threeKeywords = exampleScore [] [str ''grid'', str ''permit'', str ''hydro'']"

text \<open>
  Two threads with the same hits on the three default topics, boosts \<open>1.2\<close>, \<open>1.1\<close> and
  \<open>1.3\<close> (the doubles nearest to them), and the matched keyword \<open>policy\<close>; the first
  message that hit \<open>energy\<close> came before the first that hit \<open>builder-mp\<close> in the one, after
  it in the other. The entries of both vectors are \<open>8.2\<close>, \<open>4.4\<close> and \<open>10.4\<close>.
\<close>

definition energyFirst :: ThreadScore where
  "energyFirst = exampleScore
       [\<lparr> slug = str ''policy'', keywordHits = 1, bigramHits = 1, boost = 5404319552844595 / 4503599627370496 \<rparr>,
        \<lparr> slug = str ''energy'', keywordHits = 0, bigramHits = 1, boost = 2476979795053773 / 2251799813685248 \<rparr>,
        \<lparr> slug = str ''builder-mp'', keywordHits = 0, bigramHits = 2, boost = 5854679515581645 / 4503599627370496 \<rparr>]
       [str ''policy'']"

definition builderFirst :: ThreadScore where
  "builderFirst = exampleScore
       [\<lparr> slug = str ''policy'', keywordHits = 1, bigramHits = 1, boost = 5404319552844595 / 4503599627370496 \<rparr>,
        \<lparr> slug = str ''builder-mp'', keywordHits = 0, bigramHits = 2, boost = 5854679515581645 / 4503599627370496 \<rparr>,
        \<lparr> slug = str ''energy'', keywordHits = 0, bigramHits = 1, boost = 2476979795053773 / 2251799813685248 \<rparr>]
       [str ''policy'']"

subsection \<open>Rounding\<close>

lemma roundHalfEven_near:
  assumes "of_int m - 1 / 2 < y" and "y < of_int m + 1 / 2"
  shows "roundHalfEven y = m"
proof (cases "of_int m \<le> y")
  case True
  with assms(2) have "\<lfloor>y\<rfloor> = m" by (simp add: floor_eq_iff)
  with assms(2) show ?thesis by (simp add: roundHalfEven_def Let_def)
next
  case False
  with assms(1) have f: "\<lfloor>y\<rfloor> = m - 1" by (simp add: floor_eq_iff)
  have "\<not> y - of_int (m - 1) < 1 / 2" "y - of_int (m - 1) > 1 / 2" using assms(1) by simp_all
  with f show ?thesis by (simp add: roundHalfEven_def Let_def)
qed

lemma roundHalfEven_tie: "roundHalfEven (of_int f + 1 / 2) = (if even f then f else f + 1)"
proof -
  have "\<lfloor>of_int f + 1 / 2 :: real\<rfloor> = f" by (simp add: floor_eq_iff)
  then show ?thesis by (simp add: roundHalfEven_def Let_def)
qed

lemma roundDouble_scaled:
  assumes "2 powr of_int e \<le> x" and "x < 2 powr (of_int e + 1)"
  shows "roundDouble x = of_int (roundHalfEven (x / 2 powr (of_int e - 52))) * 2 powr (of_int e - 52)"
proof -
  have "0 < 2 powr (of_int e :: real)" by simp
  with assms(1) have pos: "0 < x" by linarith
  then have "\<lfloor>log 2 x\<rfloor> = e" using assms(1,2) by (simp add: floor_log_eq_powr_iff)
  with pos show ?thesis by (simp add: roundDouble_def Let_def)
qed

lemma powr_int_diff: "(2::real) powr (of_int (int p - int q)) = 2 ^ p / 2 ^ q"
proof -
  have "(2::real) powr (of_int (int p - int q)) = 2 powr (real p - real q)" by simp
  also have "\<dots> = 2 powr real p / 2 powr real q" by (rule powr_diff)
  also have "\<dots> = 2 ^ p / 2 ^ q" by (simp add: powr_realpow)
  finally show ?thesis .
qed

lemma powr_int_diff_52: "(2::real) powr (of_int (int p - int q) - 52) = 2 ^ p / 2 ^ (52 + q)"
proof -
  have "(2::real) powr (of_int (int p - int q) - 52) = 2 powr (of_int (int p - int (52 + q)))"
    by (simp add: algebra_simps)
  also have "\<dots> = 2 ^ p / 2 ^ (52 + q)" by (rule powr_int_diff)
  finally show ?thesis .
qed

lemma powr_int_diff_1: "(2::real) powr (of_int (int p - int q) + 1) = 2 * 2 ^ p / 2 ^ q"
proof -
  have "(2::real) powr (of_int (int p - int q) + 1) = 2 powr (of_int (int (Suc p) - int q))"
    by (simp add: algebra_simps)
  also have "\<dots> = 2 ^ Suc p / 2 ^ q" by (rule powr_int_diff)
  finally show ?thesis by simp
qed

lemma roundNormal_scaled:
  fixes p q :: nat
  assumes lo: "2 ^ p \<le> x * 2 ^ q" and hi: "x * 2 ^ q < 2 * 2 ^ p"
    and q: "q \<le> 1022" and p: "p \<le> 1022"
  shows "roundNormal x = Some (of_int (roundHalfEven (x * 2 ^ (52 + q) / 2 ^ p)) * 2 ^ p / 2 ^ (52 + q))"
proof -
  have a: "2 powr of_int (int p - int q) \<le> x"
    unfolding powr_int_diff using lo by (simp add: field_simps)
  have b: "x < 2 powr (of_int (int p - int q) + 1)"
    unfolding powr_int_diff_1 using hi by (simp add: field_simps)
  have r: "roundDouble x = of_int (roundHalfEven (x * 2 ^ (52 + q) / 2 ^ p)) * 2 ^ p / 2 ^ (52 + q)"
    using roundDouble_scaled [OF a b] unfolding powr_int_diff_52 by simp
  have "(1::real) \<le> 2 ^ p" by simp
  with lo have "1 \<le> x * 2 ^ q" by linarith
  then have x1: "1 / 2 ^ q \<le> x" by (simp add: field_simps)
  have "(2::real) ^ q \<le> 2 ^ 1022" using q by (intro power_increasing) simp_all
  then have "(1::real) / 2 ^ 1022 \<le> 1 / 2 ^ q" by (intro divide_left_mono) simp_all
  with x1 have low: "1 / 2 ^ 1022 \<le> x" by linarith
  have "(0::real) < 1 / 2 ^ q" by simp
  with x1 have x0: "0 < x" by linarith
  have "(1::real) \<le> 2 ^ q" by simp
  with x0 have "x * 1 \<le> x * 2 ^ q" by (intro mult_left_mono) simp_all
  with hi have "x < 2 * 2 ^ p" by simp
  moreover have "(2::real) * 2 ^ p \<le> 2 * 2 ^ 1022" using p by (intro mult_left_mono power_increasing) simp_all
  ultimately have up: "x \<le> 2 ^ 1023" by simp
  from low up x0 have "normalDouble x" by (simp add: normalDouble_def)
  with r show ?thesis by (simp add: roundNormal_def)
qed

lemma roundNormal_near:
  fixes p q :: nat and m :: int
  assumes lo: "2 ^ p \<le> x * 2 ^ q" and hi: "x * 2 ^ q < 2 * 2 ^ p"
    and q: "q \<le> 1022" and p: "p \<le> 1022"
    and m1: "of_int m - 1 / 2 < x * 2 ^ (52 + q) / 2 ^ p"
    and m2: "x * 2 ^ (52 + q) / 2 ^ p < of_int m + 1 / 2"
  shows "roundNormal x = Some (of_int m * 2 ^ p / 2 ^ (52 + q))"
  unfolding roundNormal_scaled [OF lo hi q p] roundHalfEven_near [OF m1 m2] ..

lemma roundNormal_tie:
  fixes p q :: nat and f :: int
  assumes lo: "2 ^ p \<le> x * 2 ^ q" and hi: "x * 2 ^ q < 2 * 2 ^ p"
    and q: "q \<le> 1022" and p: "p \<le> 1022"
    and t: "x * 2 ^ (52 + q) / 2 ^ p = of_int f + 1 / 2"
  shows "roundNormal x = Some (of_int (if even f then f else f + 1) * 2 ^ p / 2 ^ (52 + q))"
  unfolding roundNormal_scaled [OF lo hi q p] t roundHalfEven_tie ..

lemma roundNormal_sqrt_near:
  fixes p q :: nat and m :: int
  assumes x0: "0 \<le> x"
    and lo: "(2 ^ p)\<^sup>2 \<le> x * (2 ^ q)\<^sup>2" and hi: "x * (2 ^ q)\<^sup>2 < (2 * 2 ^ p)\<^sup>2"
    and q: "q \<le> 1022" and p: "p \<le> 1022"
    and m0: "1 \<le> m"
    and m1: "((of_int m - 1 / 2) * 2 ^ p)\<^sup>2 < x * (2 ^ (52 + q))\<^sup>2"
    and m2: "x * (2 ^ (52 + q))\<^sup>2 < ((of_int m + 1 / 2) * 2 ^ p)\<^sup>2"
  shows "roundNormal (sqrt x) = Some (of_int m * 2 ^ p / 2 ^ (52 + q))"
proof -
  have s: "sqrt (x * (c)\<^sup>2) = sqrt x * c" if "0 \<le> c" for c :: real
    using that by (simp add: real_sqrt_mult)
  have a: "2 ^ p \<le> sqrt x * 2 ^ q"
    using real_le_rsqrt [OF lo] by (simp add: s)
  have b: "sqrt x * 2 ^ q < 2 * 2 ^ p"
    using real_less_lsqrt [OF _ hi] by (simp add: s)
  have "(of_int m - 1 / 2) * 2 ^ p < sqrt x * 2 ^ (52 + q)"
    using real_less_rsqrt [OF m1] by (simp add: s)
  then have c: "of_int m - 1 / 2 < sqrt x * 2 ^ (52 + q) / 2 ^ p"
    by (simp add: field_simps)
  have "0 \<le> (of_int m + 1 / 2) * (2::real) ^ p" using m0 by simp
  from real_less_lsqrt [OF this m2] have "sqrt x * 2 ^ (52 + q) < (of_int m + 1 / 2) * 2 ^ p"
    by (simp add: s)
  then have d: "sqrt x * 2 ^ (52 + q) / 2 ^ p < of_int m + 1 / 2"
    by (simp add: field_simps)
  from roundNormal_near [OF a b q p c d] show ?thesis .
qed

lemma roundHalfEven_error: "\<bar>of_int (roundHalfEven y) - y\<bar> \<le> 1 / 2"
proof -
  have f: "of_int \<lfloor>y\<rfloor> \<le> y" "y < of_int \<lfloor>y\<rfloor> + 1" by linarith+
  show ?thesis
  proof (cases "y - of_int \<lfloor>y\<rfloor> < 1 / 2")
    case True
    then have "roundHalfEven y = \<lfloor>y\<rfloor>" by (simp add: roundHalfEven_def Let_def)
    with True f show ?thesis by simp
  next
    case False
    note nl = this
    show ?thesis
    proof (cases "y - of_int \<lfloor>y\<rfloor> > 1 / 2")
      case True
      with nl have "roundHalfEven y = \<lfloor>y\<rfloor> + 1" by (simp add: roundHalfEven_def Let_def)
      with True f show ?thesis by simp
    next
      case False
      with nl have h: "y - of_int \<lfloor>y\<rfloor> = 1 / 2" by simp
      have "roundHalfEven y = \<lfloor>y\<rfloor> \<or> roundHalfEven y = \<lfloor>y\<rfloor> + 1"
        by (simp add: roundHalfEven_def Let_def)
      then show ?thesis
      proof
        assume "roundHalfEven y = \<lfloor>y\<rfloor>"
        with h show ?thesis by simp
      next
        assume "roundHalfEven y = \<lfloor>y\<rfloor> + 1"
        with h show ?thesis by simp
      qed
    qed
  qed
qed

lemma roundDouble_error:
  assumes "0 < x"
  shows "\<bar>roundDouble x - x\<bar> \<le> unitRoundoff * x"
proof -
  define e where "e = \<lfloor>log 2 x\<rfloor>"
  define ulp :: real where "ulp = 2 powr (of_int e - 52)"
  have ulp_pos: "0 < ulp" by (simp add: ulp_def)
  have "\<lfloor>log 2 x\<rfloor> = e" by (simp add: e_def)
  then have lo: "2 powr of_int e \<le> x" using assms by (simp add: floor_log_eq_powr_iff)
  have "ulp = 2 powr of_int e / 2 powr 52" unfolding ulp_def by (rule powr_diff)
  also have "(2::real) powr 52 = 2 ^ 52" by (simp add: powr_realpow [symmetric])
  finally have ulp: "ulp = 2 powr of_int e / 2 ^ 52" .
  have rd: "roundDouble x = of_int (roundHalfEven (x / ulp)) * ulp"
    using assms by (simp add: roundDouble_def Let_def e_def ulp_def)
  have "roundDouble x - x = (of_int (roundHalfEven (x / ulp)) - x / ulp) * ulp"
    using ulp_pos by (simp add: rd field_simps)
  then have "\<bar>roundDouble x - x\<bar> = \<bar>of_int (roundHalfEven (x / ulp)) - x / ulp\<bar> * ulp"
    using ulp_pos by (simp add: abs_mult)
  also have "\<dots> \<le> 1 / 2 * ulp"
    using ulp_pos by (intro mult_right_mono roundHalfEven_error) simp_all
  also have "\<dots> = 2 powr of_int e / 2 ^ 53" by (simp add: ulp)
  also have "\<dots> \<le> x / 2 ^ 53" using lo by (simp add: divide_right_mono)
  finally show ?thesis by (simp add: unitRoundoff_def)
qed

lemma roundDouble_0: "roundDouble 0 = 0"
  by (simp add: roundDouble_def)

lemma roundDouble_upper: "0 \<le> x \<Longrightarrow> roundDouble x \<le> (1 + unitRoundoff) * x"
proof (cases "x = 0")
  case True
  then show ?thesis by (simp add: roundDouble_0)
next
  case False
  assume "0 \<le> x"
  with False have "0 < x" by simp
  from roundDouble_error [OF this] show ?thesis by (simp add: algebra_simps abs_le_iff)
qed

lemma roundDouble_lower: "0 \<le> x \<Longrightarrow> (1 - unitRoundoff) * x \<le> roundDouble x"
proof (cases "x = 0")
  case True
  then show ?thesis by (simp add: roundDouble_0)
next
  case False
  assume "0 \<le> x"
  with False have "0 < x" by simp
  from roundDouble_error [OF this] show ?thesis by (simp add: algebra_simps abs_le_iff)
qed

lemma unitRoundoff_bounds: "0 < unitRoundoff" "unitRoundoff < 1"
  by (simp_all add: unitRoundoff_def)

lemma roundDouble_nonneg: "0 \<le> x \<Longrightarrow> 0 \<le> roundDouble x"
proof -
  assume x: "0 \<le> x"
  have "0 \<le> (1 - unitRoundoff) * x" using x unitRoundoff_bounds by (intro mult_nonneg_nonneg) simp_all
  with roundDouble_lower [OF x] show ?thesis by linarith
qed

lemma enclosed_start: "enclosed k 0 0"
  by (simp add: enclosed_def)

lemma enclosed_step:
  assumes k: "1 \<le> k" and X: "0 \<le> X" and p: "0 \<le> p" and e: "enclosed k X s"
  shows "enclosed (Suc k) (X + p) (roundDouble (s + roundDouble p))"
proof -
  define a where "a = 1 - unitRoundoff"
  define b where "b = 1 + unitRoundoff"
  have a: "0 < a" "a \<le> 1" and b: "1 \<le> b" using unitRoundoff_bounds by (simp_all add: a_def b_def)
  have ak: "a ^ k \<le> a" using power_decreasing [of 1 k a] a k by simp
  have bk: "b \<le> b ^ k" using power_increasing [of 1 k b] b k by simp
  have ak0: "0 \<le> a ^ k" using a by simp
  from e have lo: "a ^ k * X \<le> s" and hi: "s \<le> b ^ k * X" by (simp_all add: enclosed_def a_def b_def)
  have s0: "0 \<le> s" using lo mult_nonneg_nonneg [OF ak0 X] by linarith
  have rp0: "0 \<le> roundDouble p" by (rule roundDouble_nonneg [OF p])
  have rplo: "a * p \<le> roundDouble p" using roundDouble_lower [OF p] by (simp add: a_def)
  have rphi: "roundDouble p \<le> b * p" using roundDouble_upper [OF p] by (simp add: b_def)
  have t0: "0 \<le> s + roundDouble p" using s0 rp0 by simp
  have "a ^ k * p \<le> a * p" using ak p by (rule mult_right_mono)
  with rplo lo have tlo: "a ^ k * (X + p) \<le> s + roundDouble p" by (simp add: algebra_simps)
  have "b * p \<le> b ^ k * p" using bk p by (rule mult_right_mono)
  with rphi hi have thi: "s + roundDouble p \<le> b ^ k * (X + p)" by (simp add: algebra_simps)
  have "a * (a ^ k * (X + p)) \<le> a * (s + roundDouble p)" using tlo a by (intro mult_left_mono) simp_all
  also have "\<dots> \<le> roundDouble (s + roundDouble p)" using roundDouble_lower [OF t0] by (simp add: a_def)
  finally have r1: "a ^ Suc k * (X + p) \<le> roundDouble (s + roundDouble p)" by (simp add: mult.assoc)
  have "roundDouble (s + roundDouble p) \<le> b * (s + roundDouble p)" using roundDouble_upper [OF t0] by (simp add: b_def)
  also have "\<dots> \<le> b * (b ^ k * (X + p))" using thi b by (intro mult_left_mono) simp_all
  finally have r2: "roundDouble (s + roundDouble p) \<le> b ^ Suc k * (X + p)" by (simp add: mult.assoc)
  from r1 r2 show ?thesis by (simp add: enclosed_def a_def b_def)
qed

lemma roundNormal_Some: "roundNormal x = Some y \<Longrightarrow> y = roundDouble x"
  by (simp add: roundNormal_def split: if_splits)

lemma cosineStepDouble_Some:
  assumes "cosineStepDouble a b (Some (d, na, nb)) t = Some (d', na', nb')"
  shows "d' = roundDouble (d + roundDouble (getOr0 a t * getOr0 b t))"
    and "na' = roundDouble (na + roundDouble (getOr0 a t * getOr0 a t))"
    and "nb' = roundDouble (nb + roundDouble (getOr0 b t * getOr0 b t))"
  using assms
  by (auto simp: cosineStepDouble_def Let_def bind_eq_Some_conv addDouble_def mulDouble_def
      dest!: roundNormal_Some)

lemma foldl_cosineStepDouble_None: "foldl (cosineStepDouble a b) None ts = None"
  by (induction ts) (simp_all add: cosineStepDouble_def)

lemma foldl_cosineStepDouble_enclosed:
  assumes "nonnegVector a" and "nonnegVector b"
  shows "foldl (cosineStepDouble a b) (Some (d, na, nb)) ts = Some (d', na', nb')
     \<Longrightarrow> 1 \<le> k \<Longrightarrow> 0 \<le> D \<Longrightarrow> 0 \<le> A \<Longrightarrow> 0 \<le> B
     \<Longrightarrow> enclosed k D d \<Longrightarrow> enclosed k A na \<Longrightarrow> enclosed k B nb
     \<Longrightarrow> enclosed (k + length ts) (D + (\<Sum>t\<leftarrow>ts. getOr0 a t * getOr0 b t)) d'
         \<and> enclosed (k + length ts) (A + (\<Sum>t\<leftarrow>ts. getOr0 a t * getOr0 a t)) na'
         \<and> enclosed (k + length ts) (B + (\<Sum>t\<leftarrow>ts. getOr0 b t * getOr0 b t)) nb'"
proof (induction ts arbitrary: d na nb k D A B)
  case Nil
  then show ?case by simp
next
  case (Cons t ts)
  have va: "0 \<le> getOr0 a t" and vb: "0 \<le> getOr0 b t"
    by (rule getOr0_nonneg [OF assms(1)], rule getOr0_nonneg [OF assms(2)])
  from Cons.prems(1) have f: "foldl (cosineStepDouble a b) (cosineStepDouble a b (Some (d, na, nb)) t) ts = Some (d', na', nb')"
    by simp
  then obtain d1 na1 nb1 where s: "cosineStepDouble a b (Some (d, na, nb)) t = Some (d1, na1, nb1)"
    by (cases "cosineStepDouble a b (Some (d, na, nb)) t") (auto simp: foldl_cosineStepDouble_None)
  note v = cosineStepDouble_Some [OF s]
  have e1: "enclosed (Suc k) (D + getOr0 a t * getOr0 b t) d1"
    unfolding v(1) using Cons.prems(2,3,6) va vb by (intro enclosed_step mult_nonneg_nonneg)
  have e2: "enclosed (Suc k) (A + getOr0 a t * getOr0 a t) na1"
    unfolding v(2) using Cons.prems(2,4,7) va by (intro enclosed_step mult_nonneg_nonneg)
  have e3: "enclosed (Suc k) (B + getOr0 b t * getOr0 b t) nb1"
    unfolding v(3) using Cons.prems(2,5,8) vb by (intro enclosed_step mult_nonneg_nonneg)
  from f s have f': "foldl (cosineStepDouble a b) (Some (d1, na1, nb1)) ts = Some (d', na', nb')" by simp
  have "enclosed (Suc k + length ts) (D + getOr0 a t * getOr0 b t + (\<Sum>t\<leftarrow>ts. getOr0 a t * getOr0 b t)) d'
         \<and> enclosed (Suc k + length ts) (A + getOr0 a t * getOr0 a t + (\<Sum>t\<leftarrow>ts. getOr0 a t * getOr0 a t)) na'
         \<and> enclosed (Suc k + length ts) (B + getOr0 b t * getOr0 b t + (\<Sum>t\<leftarrow>ts. getOr0 b t * getOr0 b t)) nb'"
    using Cons.prems(3,4,5) va vb by (intro Cons.IH [OF f' _ _ _ _ e1 e2 e3]) simp_all
  then show ?case by (simp add: add.assoc)
qed

subsection \<open>The computed similarity against the exact one\<close>

lemma enclosed_zero: "enclosed k 0 s \<Longrightarrow> s = 0"
  by (simp add: enclosed_def)

lemma enclosed_pos:
  assumes "enclosed k X s" and "0 < X"
  shows "0 < s"
proof -
  have "0 < (1 - unitRoundoff) ^ k * X" using assms(2) unitRoundoff_bounds by simp
  with assms(1) show ?thesis by (simp add: enclosed_def)
qed

lemma enclosed_nonneg:
  assumes "enclosed k X s" and "0 \<le> X"
  shows "0 \<le> s"
proof -
  have "0 \<le> (1 - unitRoundoff) ^ k * X" using assms(2) unitRoundoff_bounds by simp
  with assms(1) show ?thesis by (simp add: enclosed_def)
qed

lemma sqrt_product_scaled:
  assumes "0 \<le> c"
  shows "sqrt (c * A) * sqrt (c * B) = c * (sqrt A * sqrt B)"
proof -
  have "sqrt (c * A) * sqrt (c * B) = (sqrt c * sqrt c) * (sqrt A * sqrt B)"
    by (simp add: real_sqrt_mult)
  also have "sqrt c * sqrt c = c" using assms by simp
  finally show ?thesis .
qed

lemma sqrt_product_upper:
  assumes "0 \<le> c" and "0 \<le> na" and "0 \<le> nb" and "na \<le> c * A" and "nb \<le> c * B"
  shows "sqrt na * sqrt nb \<le> c * (sqrt A * sqrt B)"
proof -
  have "sqrt na * sqrt nb \<le> sqrt (c * A) * sqrt (c * B)"
    using assms by (intro mult_mono) simp_all
  then show ?thesis by (simp only: sqrt_product_scaled [OF assms(1)])
qed

lemma sqrt_product_lower:
  assumes "0 \<le> c" and "0 \<le> A" and "0 \<le> B" and "c * A \<le> na" and "c * B \<le> nb"
  shows "c * (sqrt A * sqrt B) \<le> sqrt na * sqrt nb"
proof -
  have "0 \<le> sqrt (c * A)" "0 \<le> sqrt (c * B)" using assms(1,2,3) by simp_all
  moreover have "sqrt (c * A) \<le> sqrt na" "sqrt (c * B) \<le> sqrt nb" using assms(4,5) by simp_all
  ultimately have "sqrt (c * A) * sqrt (c * B) \<le> sqrt na * sqrt nb"
    by (intro mult_mono) linarith+
  then show ?thesis by (simp only: sqrt_product_scaled [OF assms(1)])
qed

text \<open>The quotient of the last line of \<open>cosineSimilarity\<close>, from enclosed sums.\<close>

lemma quotient_enclosed:
  assumes ed: "enclosed k D d" and ea: "enclosed k A na" and eb: "enclosed k B nb"
    and D: "0 \<le> D" and A: "0 < A" and B: "0 < B"
  defines "x \<equiv> roundDouble (d / roundDouble (roundDouble (sqrt na) * roundDouble (sqrt nb)))"
  shows "D / (sqrt A * sqrt B) / ((1 + unitRoundoff) / (1 - unitRoundoff)) ^ (k + 3) \<le> x"
    and "x \<le> D / (sqrt A * sqrt B) * ((1 + unitRoundoff) / (1 - unitRoundoff)) ^ (k + 3)"
proof -
  define a where "a = 1 - unitRoundoff"
  define b where "b = 1 + unitRoundoff"
  define R where "R = sqrt A * sqrt B"
  define c where "c = D / R"
  have a: "0 < a" "a \<le> 1" and b: "1 \<le> b" "0 < b" using unitRoundoff_bounds by (simp_all add: a_def b_def)
  have R: "0 < R" using A B by (simp add: R_def)
  have c0: "0 \<le> c" using D R by (simp add: c_def)
  have na: "0 < na" and nb: "0 < nb" using enclosed_pos [OF ea A] enclosed_pos [OF eb B] .
  have d0: "0 \<le> d" using enclosed_nonneg [OF ed D] .
  from ed have dlo: "a ^ k * D \<le> d" and dhi: "d \<le> b ^ k * D" by (simp_all add: enclosed_def a_def b_def)
  from ea have alo: "a ^ k * A \<le> na" and ahi: "na \<le> b ^ k * A" by (simp_all add: enclosed_def a_def b_def)
  from eb have blo: "a ^ k * B \<le> nb" and bhi: "nb \<le> b ^ k * B" by (simp_all add: enclosed_def a_def b_def)
  define s where "s = sqrt na * sqrt nb"
  have shi: "s \<le> b ^ k * R" unfolding s_def R_def
    using b na nb ahi bhi by (intro sqrt_product_upper) simp_all
  have slo: "a ^ k * R \<le> s" unfolding s_def R_def
    using a A B alo blo by (intro sqrt_product_lower) simp_all
  have s0: "0 < s" using na nb by (simp add: s_def)
  define rA where "rA = roundDouble (sqrt na)"
  define rB where "rB = roundDouble (sqrt nb)"
  have rAlo: "a * sqrt na \<le> rA" and rAhi: "rA \<le> b * sqrt na"
    using roundDouble_lower [of "sqrt na"] roundDouble_upper [of "sqrt na"] na
    by (simp_all add: rA_def a_def b_def)
  have rBlo: "a * sqrt nb \<le> rB" and rBhi: "rB \<le> b * sqrt nb"
    using roundDouble_lower [of "sqrt nb"] roundDouble_upper [of "sqrt nb"] nb
    by (simp_all add: rB_def a_def b_def)
  have rA0: "0 \<le> rA" and rB0: "0 \<le> rB"
    using na nb by (simp_all add: rA_def rB_def roundDouble_nonneg)
  have plo: "a * a * s \<le> rA * rB"
  proof -
    have "(a * sqrt na) * (a * sqrt nb) \<le> rA * rB"
      using rAlo rBlo rA0 a na nb by (intro mult_mono) simp_all
    then show ?thesis by (simp add: s_def mult_ac)
  qed
  have phi: "rA * rB \<le> b * b * s"
  proof -
    have "rA * rB \<le> (b * sqrt na) * (b * sqrt nb)"
      using rAhi rBhi rA0 rB0 b na nb by (intro mult_mono) simp_all
    then show ?thesis by (simp add: s_def mult_ac)
  qed
  have p0: "0 \<le> rA * rB" using rA0 rB0 by simp
  define den where "den = roundDouble (rA * rB)"
  have denlo': "a * (rA * rB) \<le> den" and denhi': "den \<le> b * (rA * rB)"
    using roundDouble_lower [OF p0] roundDouble_upper [OF p0] by (simp_all add: den_def a_def b_def)
  have denlo: "a ^ (k + 3) * R \<le> den"
  proof -
    have "a ^ (k + 3) * R = a * (a * a * (a ^ k * R))" by (simp add: power_add power3_eq_cube mult_ac)
    also have "\<dots> \<le> a * (a * a * s)" using slo a by (intro mult_left_mono) simp_all
    also have "\<dots> \<le> a * (rA * rB)" using plo a by (intro mult_left_mono) simp_all
    also have "\<dots> \<le> den" by (rule denlo')
    finally show ?thesis .
  qed
  have denhi: "den \<le> b ^ (k + 3) * R"
  proof -
    have "den \<le> b * (rA * rB)" by (rule denhi')
    also have "\<dots> \<le> b * (b * b * s)" using phi b by (intro mult_left_mono) simp_all
    also have "\<dots> \<le> b * (b * b * (b ^ k * R))" using shi b by (intro mult_left_mono) simp_all
    also have "\<dots> = b ^ (k + 3) * R" by (simp add: power_add power3_eq_cube mult_ac)
    finally show ?thesis .
  qed
  have den0: "0 < den"
  proof -
    have "0 < a ^ (k + 3) * R" using a R by simp
    with denlo show ?thesis by linarith
  qed
  define q where "q = d / den"
  have q0: "0 \<le> q" using d0 den0 by (simp add: q_def)
  have x: "x = roundDouble q" by (simp add: x_def q_def den_def rA_def rB_def)
  have xlo: "a * q \<le> x" and xhi: "x \<le> b * q"
    using roundDouble_lower [OF q0] roundDouble_upper [OF q0] by (simp_all add: x a_def b_def)
  have qhi: "q \<le> (b ^ k * D) / (a ^ (k + 3) * R)"
    unfolding q_def using d0 dhi denlo a R by (intro frac_le) simp_all
  have qlo: "(a ^ k * D) / (b ^ (k + 3) * R) \<le> q"
    unfolding q_def using dlo denhi den0 d0 by (intro frac_le) simp_all
  have ratio: "((1 + unitRoundoff) / (1 - unitRoundoff)) ^ (k + 3) = b ^ (k + 3) / a ^ (k + 3)"
    by (simp add: a_def b_def power_divide)
  have up: "x \<le> c * (b ^ (k + 3) / a ^ (k + 3))"
  proof -
    have "x \<le> b * q" by (rule xhi)
    also have "\<dots> \<le> b * ((b ^ k * D) / (a ^ (k + 3) * R))" using qhi b by (intro mult_left_mono) simp_all
    also have "\<dots> = c * (b ^ Suc k / a ^ (k + 3))" by (simp add: c_def mult_ac)
    also have "\<dots> \<le> c * (b ^ (k + 3) / a ^ (k + 3))"
      using b a c0 by (intro mult_left_mono divide_right_mono power_increasing) simp_all
    finally show ?thesis .
  qed
  have low: "c / (b ^ (k + 3) / a ^ (k + 3)) \<le> x"
  proof -
    have "c / (b ^ (k + 3) / a ^ (k + 3)) = c * (a ^ (k + 3) / b ^ (k + 3))" by simp
    also have "\<dots> \<le> c * (a ^ Suc k / b ^ (k + 3))"
      using b a c0 by (intro mult_left_mono divide_right_mono power_decreasing) simp_all
    also have "\<dots> = a * ((a ^ k * D) / (b ^ (k + 3) * R))" by (simp add: c_def mult_ac)
    also have "\<dots> \<le> a * q" using qlo a by (intro mult_left_mono) simp_all
    also have "\<dots> \<le> x" by (rule xlo)
    finally show ?thesis .
  qed
  show "D / (sqrt A * sqrt B) / ((1 + unitRoundoff) / (1 - unitRoundoff)) ^ (k + 3) \<le> x"
    using low by (simp only: ratio c_def R_def)
  show "x \<le> D / (sqrt A * sqrt B) * ((1 + unitRoundoff) / (1 - unitRoundoff)) ^ (k + 3)"
    using up by (simp only: ratio c_def R_def)
qed

lemma nonnegVector_mapAddDouble:
  assumes "nonnegVector m" and "0 \<le> w" and "mapAddDouble m k w = Some m'"
  shows "nonnegVector m'"
proof -
  from assms(3) obtain v where v: "addDouble (getOr0 m k) w = Some v" and m': "m' = mapSet m k v"
    by (auto simp: mapAddDouble_def)
  from v have "v = roundDouble (getOr0 m k + w)" by (simp add: addDouble_def roundNormal_Some)
  moreover have "0 \<le> getOr0 m k + w" using getOr0_nonneg [OF assms(1), of k] assms(2) by simp
  ultimately have "0 \<le> v" by (simp add: roundDouble_nonneg)
  with assms(1) show ?thesis unfolding m' by (rule nonnegVector_mapSet)
qed

lemma nonnegVector_foldl_option:
  assumes "\<And>m x m'. nonnegVector m \<Longrightarrow> f (Some m) x = Some m' \<Longrightarrow> nonnegVector m'"
    and "\<And>x. f None x = None"
  shows "nonnegVector m \<Longrightarrow> foldl f (Some m) xs = Some m' \<Longrightarrow> nonnegVector m'"
proof (induction xs arbitrary: m)
  case Nil
  then show ?case by simp
next
  case (Cons x xs)
  have n: "foldl f None xs = None" by (induction xs) (simp_all add: assms(2))
  from Cons.prems(2) have f: "foldl f (f (Some m) x) xs = Some m'" by simp
  then obtain m1 where m1: "f (Some m) x = Some m1"
    by (cases "f (Some m) x") (simp_all add: n)
  from assms(1) [OF Cons.prems(1) m1] have "nonnegVector m1" .
  moreover from f m1 have "foldl f (Some m1) xs = Some m'" by simp
  ultimately show ?case by (rule Cons.IH)
qed

lemma nonnegVector_buildVectorDouble:
  assumes "buildVectorDouble s = Some v"
  shows "nonnegVector v"
proof -
  let ?f = "\<lambda>vector hit. Option.bind vector (\<lambda>vector.
                        Option.bind (mulDouble (keywordHits hit) 2) (\<lambda>keywordWeight.
                        Option.bind (mulDouble (bigramHits hit) 4) (\<lambda>bigramWeight.
                        Option.bind (addDouble keywordWeight bigramWeight) (\<lambda>hitWeight.
                        Option.bind (mulDouble hitWeight (boost hit)) (\<lambda>weight.
                          if weight \<le> 0 then Some vector else mapAddDouble vector (slug hit) weight)))))"
  let ?g = "\<lambda>vector keyword. Option.bind vector (\<lambda>vector. mapAddDouble vector keyword 1)"
  have gn: "foldl ?g None xs = None" for xs by (induction xs) simp_all
  from assms have g: "foldl ?g (foldl ?f (Some []) (topicHits (feature s))) (matchedKeywords (feature s)) = Some v"
    by (simp add: buildVectorDouble_def Let_def)
  then obtain v1 where v1: "foldl ?f (Some []) (topicHits (feature s)) = Some v1"
    by (cases "foldl ?f (Some []) (topicHits (feature s))") (simp_all add: gn)
  have e: "nonnegVector []" by (simp add: nonnegVector_def)
  have "nonnegVector v1"
  proof (rule nonnegVector_foldl_option [where f = ?f, OF _ _ e v1])
    fix m :: vector and x :: TopicHitMetric and m' :: vector
    assume m: "nonnegVector m" and h: "?f (Some m) x = Some m'"
    from h obtain w where w: "(if w \<le> 0 then Some m else mapAddDouble m (slug x) w) = Some m'"
      by (auto simp: bind_eq_Some_conv)
    show "nonnegVector m'"
    proof (cases "w \<le> 0")
      case True
      with w m show ?thesis by simp
    next
      case False
      with w have "mapAddDouble m (slug x) w = Some m'" by simp
      with m False show ?thesis by (intro nonnegVector_mapAddDouble [of m w "slug x" m']) simp_all
    qed
  next
    fix x :: TopicHitMetric
    show "?f None x = None" by simp
  qed
  moreover from g v1 have "foldl ?g (Some v1) (matchedKeywords (feature s)) = Some v" by simp
  ultimately show ?thesis
  proof (rule nonnegVector_foldl_option [where f = ?g, rotated 2])
    fix m :: vector and x :: jsstring and m' :: vector
    assume m: "nonnegVector m" and h: "?g (Some m) x = Some m'"
    then show "nonnegVector m'" by (intro nonnegVector_mapAddDouble [of m 1 x m']) simp_all
  next
    fix x :: jsstring
    show "?g None x = None" by simp
  qed
qed

lemma dotProduct_nonneg: "nonnegVector a \<Longrightarrow> nonnegVector b \<Longrightarrow> 0 \<le> dotProduct a b"
  unfolding dotProduct_def by (intro sum_nonneg mult_nonneg_nonneg getOr0_nonneg)

lemma tokenSet_commute: "tokenSet a b = tokenSet b a"
  by (simp add: tokenSet_def Un_commute)

lemma roundingFactor_ge_1: "1 \<le> roundingFactor n"
proof -
  have "1 \<le> (1 + unitRoundoff) / (1 - unitRoundoff)"
    using unitRoundoff_bounds by (simp add: field_simps)
  then show ?thesis unfolding roundingFactor_def by (rule one_le_power)
qed

lemma cosineSimilarityDouble_enclosure:
  assumes a: "nonnegVector a" and b: "nonnegVector b" and x: "cosineSimilarityDouble a b = Some x"
  shows "cosineSimilarity a b / roundingFactor (card (tokenSet a b)) \<le> x"
    and "x \<le> cosineSimilarity a b * roundingFactor (card (tokenSet a b))"
proof -
  let ?S = "newSet (map fst a @ map fst b)"
  let ?n = "card (tokenSet a b)"
  have s: "set ?S = tokenSet a b" by (simp add: set_newSet tokenSet_def)
  have d: "distinct ?S" by (rule distinct_newSet)
  have len: "length ?S = ?n" using distinct_card [OF d] s by simp
  have sums: "\<And>f::jsstring \<Rightarrow> real. (\<Sum>t\<leftarrow>?S. f t) = (\<Sum>t \<in> tokenSet a b. f t)"
    using sum_list_distinct_conv_sum_set [OF d] s by simp
  from x obtain dot normA normB where
    fold: "foldl (cosineStepDouble a b) (Some (0, 0, 0)) ?S = Some (dot, normA, normB)"
    and rest: "(if normA = 0 \<or> normB = 0 then Some 0
                else Option.bind (sqrtDouble normA) (\<lambda>rootA. Option.bind (sqrtDouble normB) (\<lambda>rootB.
                     Option.bind (mulDouble rootA rootB) (\<lambda>denominator. divDouble dot denominator)))) = Some x"
    by (auto simp: cosineSimilarityDouble_def Let_def bind_eq_Some_conv)
  have D: "0 \<le> dotProduct a b" by (rule dotProduct_nonneg [OF a b])
  have A: "0 \<le> squaredNorm a" and B: "0 \<le> squaredNorm b" by (rule squaredNorm_nonneg)+
  from foldl_cosineStepDouble_enclosed [OF a b fold, of 1 0 0 0]
  have e: "enclosed (Suc ?n) (dotProduct a b) dot" "enclosed (Suc ?n) (squaredNorm a) normA"
    "enclosed (Suc ?n) (squaredNorm b) normB"
    by (simp_all add: enclosed_start sums len dotProduct_def squaredNorm_over_tokenSet)
  show "cosineSimilarity a b / roundingFactor ?n \<le> x"
    and "x \<le> cosineSimilarity a b * roundingFactor ?n"
  proof -
    have "cosineSimilarity a b / roundingFactor ?n \<le> x \<and> x \<le> cosineSimilarity a b * roundingFactor ?n"
    proof (cases "squaredNorm a = 0 \<or> squaredNorm b = 0")
      case True
      then have "normA = 0 \<or> normB = 0" using e(2,3) by (auto dest: enclosed_zero)
      with rest have "x = 0" by simp
      moreover from True have "cosineSimilarity a b = 0" by (simp add: cosineSimilarity_sums)
      ultimately show ?thesis by simp
    next
      case False
      with A B have Ap: "0 < squaredNorm a" and Bp: "0 < squaredNorm b" by simp_all
      have nA: "0 < normA" and nB: "0 < normB" using enclosed_pos [OF e(2) Ap] enclosed_pos [OF e(3) Bp] .
      with rest obtain rootA rootB denominator where
        rA: "sqrtDouble normA = Some rootA" and rB: "sqrtDouble normB = Some rootB"
        and dn: "mulDouble rootA rootB = Some denominator" and q: "divDouble dot denominator = Some x"
        by (auto simp: bind_eq_Some_conv)
      from rA nA have rA': "rootA = roundDouble (sqrt normA)"
        by (simp add: sqrtDouble_def roundNormal_Some)
      from rB nB have rB': "rootB = roundDouble (sqrt normB)"
        by (simp add: sqrtDouble_def roundNormal_Some)
      from dn have dn': "denominator = roundDouble (rootA * rootB)"
        by (simp add: mulDouble_def roundNormal_Some)
      from q have "x = roundDouble (dot / denominator)"
        by (simp add: divDouble_def roundNormal_Some split: if_splits)
      then have x': "x = roundDouble (dot / roundDouble (roundDouble (sqrt normA) * roundDouble (sqrt normB)))"
        by (simp only: dn' rA' rB')
      have c: "cosineSimilarity a b = dotProduct a b / (sqrt (squaredNorm a) * sqrt (squaredNorm b))"
        using False by (simp add: cosineSimilarity_sums)
      have k: "Suc ?n + 3 = ?n + 4" by simp
      from quotient_enclosed [OF e D Ap Bp] show ?thesis
        unfolding x' c roundingFactor_def k by simp
    qed
    then show "cosineSimilarity a b / roundingFactor ?n \<le> x"
      and "x \<le> cosineSimilarity a b * roundingFactor ?n" by simp_all
  qed
qed

lemma cosineSimilarityDouble_facts:
  assumes a: "nonnegVector a" and b: "nonnegVector b" and x: "cosineSimilarityDouble a b = Some x"
  shows "0 \<le> x"
    and "x \<le> roundingFactor (card (tokenSet a b))"
    and "cosineSimilarityDouble b a = Some y
         \<Longrightarrow> \<bar>x - y\<bar> \<le> roundingFactor (card (tokenSet a b)) - 1 / roundingFactor (card (tokenSet a b))"
    and "vectorNorm a = 0 \<or> vectorNorm b = 0 \<Longrightarrow> x = 0"
    and "set (map fst a) \<inter> set (map fst b) = {} \<Longrightarrow> x = 0"
proof -
  define r where "r = roundingFactor (card (tokenSet a b))"
  define c where "c = cosineSimilarity a b"
  have r: "1 \<le> r" unfolding r_def by (rule roundingFactor_ge_1)
  have c0: "0 \<le> c" unfolding c_def by (rule cosineSimilarity_nonneg [OF a b])
  have c1: "c \<le> 1" unfolding c_def by (rule cosineSimilarity_le_1)
  have lo: "c / r \<le> x" and hi: "x \<le> c * r"
    using cosineSimilarityDouble_enclosure [OF a b x] by (simp_all add: r_def c_def)
  have "0 \<le> c / r" using c0 r by simp
  with lo show x0: "0 \<le> x" by linarith
  have "c * r \<le> 1 * r" using c1 r by (intro mult_right_mono) simp_all
  with hi show "x \<le> roundingFactor (card (tokenSet a b))" by (simp add: r_def)
  {
    assume y: "cosineSimilarityDouble b a = Some y"
    have lo': "c / r \<le> y" and hi': "y \<le> c * r"
      using cosineSimilarityDouble_enclosure [OF b a y]
      by (simp_all add: r_def c_def tokenSet_commute [of b a] cosineSimilarity_commute [of b a])
    have "\<bar>x - y\<bar> \<le> c * r - c / r" using lo hi lo' hi' by linarith
    also have "\<dots> = c * (r - 1 / r)" by (simp add: algebra_simps)
    also have "\<dots> \<le> 1 * (r - 1 / r)"
    proof (rule mult_right_mono [OF c1])
      have "1 / r \<le> 1" using r by simp
      with r show "0 \<le> r - 1 / r" by linarith
    qed
    finally show "\<bar>x - y\<bar> \<le> roundingFactor (card (tokenSet a b)) - 1 / roundingFactor (card (tokenSet a b))"
      by (simp add: r_def)
  }
  {
    assume "vectorNorm a = 0 \<or> vectorNorm b = 0"
    then have "c = 0" unfolding c_def by (rule cosineSimilarity_zero_norm)
    with lo hi show "x = 0" by simp
  }
  {
    assume "set (map fst a) \<inter> set (map fst b) = {}"
    then have "c = 0" unfolding c_def by (rule cosineSimilarity_disjoint)
    with lo hi show "x = 0" by simp
  }
qed

text \<open>The factor in numbers: with \<open>n\<close> tokens it is at most \<open>1 + (n + 4) / 2^50\<close>.\<close>

lemma power_one_plus_le:
  fixes v :: real
  assumes "0 \<le> v"
  shows "2 * real m * v \<le> 1 \<Longrightarrow> (1 + v) ^ m \<le> 1 + 2 * real m * v"
proof (induction m)
  case 0
  then show ?case by simp
next
  case (Suc m)
  have s: "2 * real m * v \<le> 1" using Suc.prems assms by (simp add: algebra_simps)
  have "(1 + v) ^ Suc m = (1 + v) * (1 + v) ^ m" by simp
  also have "\<dots> \<le> (1 + v) * (1 + 2 * real m * v)"
    using Suc.IH [OF s] assms by (intro mult_left_mono) simp_all
  also have "\<dots> = 1 + 2 * real m * v + v + (2 * real m * v) * v" by (simp add: algebra_simps)
  also have "\<dots> \<le> 1 + 2 * real m * v + v + 1 * v"
    using s assms by (intro add_left_mono mult_right_mono)
  also have "\<dots> = 1 + 2 * real (Suc m) * v" by (simp add: algebra_simps)
  finally show ?case .
qed

lemma roundingFactor_le:
  assumes "n + 4 \<le> 2 ^ 50"
  shows "roundingFactor n \<le> 1 + real (n + 4) / 2 ^ 50"
proof -
  have r: "(1 + unitRoundoff) / (1 - unitRoundoff) \<le> 1 + 1 / 2 ^ 51"
    by (simp add: unitRoundoff_def field_simps)
  have r0: "0 \<le> (1 + unitRoundoff) / (1 - unitRoundoff)"
    using unitRoundoff_bounds by simp
  have "real (n + 4) \<le> 2 ^ 50" using assms by (metis of_nat_le_iff of_nat_numeral of_nat_power)
  then have m: "2 * real (n + 4) * (1 / 2 ^ 51) \<le> 1" by simp
  have "roundingFactor n \<le> (1 + 1 / 2 ^ 51) ^ (n + 4)"
    unfolding roundingFactor_def using r r0 by (rule power_mono)
  also have "\<dots> \<le> 1 + 2 * real (n + 4) * (1 / 2 ^ 51)"
    by (rule power_one_plus_le [OF _ m]) simp
  also have "\<dots> = 1 + real (n + 4) / 2 ^ 50" by simp
  finally show ?thesis .
qed

subsection \<open>The examples, rounding by rounding\<close>

lemma rounded_1: "addDouble 0 1 = Some 1"
  unfolding addDouble_def
  using roundNormal_near [where p = 0 and q = 0 and m = 4503599627370496 and x = "0 + 1"]
  by simp

lemma rounded_2: "mulDouble 1 1 = Some 1"
  unfolding mulDouble_def
  using roundNormal_near [where p = 0 and q = 0 and m = 4503599627370496 and x = "1 * 1"]
  by simp

lemma rounded_3: "addDouble 1 1 = Some 2"
  unfolding addDouble_def
  using roundNormal_near [where p = 1 and q = 0 and m = 4503599627370496 and x = "1 + 1"]
  by simp

lemma rounded_4: "addDouble 2 1 = Some 3"
  unfolding addDouble_def
  using roundNormal_near [where p = 1 and q = 0 and m = 6755399441055744 and x = "2 + 1"]
  by simp

lemma rounded_5: "sqrtDouble 3 = Some (3900231685776981 / 2251799813685248)"
  unfolding sqrtDouble_def
  using roundNormal_sqrt_near [where p = 0 and q = 0 and m = 7800463371553962 and x = "3"]
  by (simp add: power2_eq_square)

lemma rounded_6: "mulDouble (3900231685776981 / 2251799813685248) (3900231685776981 / 2251799813685248) = Some (6755399441055743 / 2251799813685248)"
  unfolding mulDouble_def
  using roundNormal_near [where p = 1 and q = 0 and m = 6755399441055743 and x = "(3900231685776981 / 2251799813685248) * (3900231685776981 / 2251799813685248)"]
  by simp

lemma rounded_7: "divDouble 3 (6755399441055743 / 2251799813685248) = Some (4503599627370497 / 4503599627370496)"
  unfolding divDouble_def
  using roundNormal_near [where p = 0 and q = 0 and m = 4503599627370497 and x = "3 / (6755399441055743 / 2251799813685248)"]
  by simp

lemma rounded_8: "mulDouble 1 2 = Some 2"
  unfolding mulDouble_def
  using roundNormal_near [where p = 1 and q = 0 and m = 4503599627370496 and x = "1 * 2"]
  by simp

lemma rounded_9: "mulDouble 1 4 = Some 4"
  unfolding mulDouble_def
  using roundNormal_near [where p = 2 and q = 0 and m = 4503599627370496 and x = "1 * 4"]
  by simp

lemma rounded_10: "addDouble 2 4 = Some 6"
  unfolding addDouble_def
  using roundNormal_near [where p = 2 and q = 0 and m = 6755399441055744 and x = "2 + 4"]
  by simp

lemma rounded_11: "mulDouble 6 (5404319552844595 / 4503599627370496) = Some (2026619832316723 / 281474976710656)"
  unfolding mulDouble_def
  using roundNormal_tie [where p = 2 and q = 0 and f = 8106479329266892 and x = "6 * (5404319552844595 / 4503599627370496)"]
  by simp

lemma rounded_12: "addDouble 0 (2026619832316723 / 281474976710656) = Some (2026619832316723 / 281474976710656)"
  unfolding addDouble_def
  using roundNormal_near [where p = 2 and q = 0 and m = 8106479329266892 and x = "0 + (2026619832316723 / 281474976710656)"]
  by simp

lemma rounded_13: "mulDouble 0 2 = Some 0"
  by (simp add: mulDouble_def roundNormal_def normalDouble_def roundDouble_def)

lemma rounded_14: "addDouble 0 4 = Some 4"
  unfolding addDouble_def
  using roundNormal_near [where p = 2 and q = 0 and m = 4503599627370496 and x = "0 + 4"]
  by simp

lemma rounded_15: "mulDouble 4 (2476979795053773 / 2251799813685248) = Some (2476979795053773 / 562949953421312)"
  unfolding mulDouble_def
  using roundNormal_near [where p = 2 and q = 0 and m = 4953959590107546 and x = "4 * (2476979795053773 / 2251799813685248)"]
  by simp

lemma rounded_16: "addDouble 0 (2476979795053773 / 562949953421312) = Some (2476979795053773 / 562949953421312)"
  unfolding addDouble_def
  using roundNormal_near [where p = 2 and q = 0 and m = 4953959590107546 and x = "0 + (2476979795053773 / 562949953421312)"]
  by simp

lemma rounded_17: "mulDouble 2 4 = Some 8"
  unfolding mulDouble_def
  using roundNormal_near [where p = 3 and q = 0 and m = 4503599627370496 and x = "2 * 4"]
  by simp

lemma rounded_18: "addDouble 0 8 = Some 8"
  unfolding addDouble_def
  using roundNormal_near [where p = 3 and q = 0 and m = 4503599627370496 and x = "0 + 8"]
  by simp

lemma rounded_19: "mulDouble 8 (5854679515581645 / 4503599627370496) = Some (5854679515581645 / 562949953421312)"
  unfolding mulDouble_def
  using roundNormal_near [where p = 3 and q = 0 and m = 5854679515581645 and x = "8 * (5854679515581645 / 4503599627370496)"]
  by simp

lemma rounded_20: "addDouble 0 (5854679515581645 / 562949953421312) = Some (5854679515581645 / 562949953421312)"
  unfolding addDouble_def
  using roundNormal_near [where p = 3 and q = 0 and m = 5854679515581645 and x = "0 + (5854679515581645 / 562949953421312)"]
  by simp

lemma rounded_21: "addDouble (2026619832316723 / 281474976710656) 1 = Some (2308094809027379 / 281474976710656)"
  unfolding addDouble_def
  using roundNormal_near [where p = 3 and q = 0 and m = 4616189618054758 and x = "(2026619832316723 / 281474976710656) + 1"]
  by simp

lemma rounded_22: "mulDouble (2308094809027379 / 281474976710656) (2308094809027379 / 281474976710656) = Some (4731594358506127 / 70368744177664)"
  unfolding mulDouble_def
  using roundNormal_near [where p = 6 and q = 0 and m = 4731594358506127 and x = "(2308094809027379 / 281474976710656) * (2308094809027379 / 281474976710656)"]
  by simp

lemma rounded_23: "addDouble 0 (4731594358506127 / 70368744177664) = Some (4731594358506127 / 70368744177664)"
  unfolding addDouble_def
  using roundNormal_near [where p = 6 and q = 0 and m = 4731594358506127 and x = "0 + (4731594358506127 / 70368744177664)"]
  by simp

lemma rounded_24: "mulDouble (2476979795053773 / 562949953421312) (2476979795053773 / 562949953421312) = Some (5449355549118301 / 281474976710656)"
  unfolding mulDouble_def
  using roundNormal_near [where p = 4 and q = 0 and m = 5449355549118301 and x = "(2476979795053773 / 562949953421312) * (2476979795053773 / 562949953421312)"]
  by simp

lemma rounded_25: "addDouble (4731594358506127 / 70368744177664) (5449355549118301 / 281474976710656) = Some (3046966622892851 / 35184372088832)"
  unfolding addDouble_def
  using roundNormal_near [where p = 6 and q = 0 and m = 6093933245785702 and x = "(4731594358506127 / 70368744177664) + (5449355549118301 / 281474976710656)"]
  by simp

lemma rounded_26: "mulDouble (5854679515581645 / 562949953421312) (5854679515581645 / 562949953421312) = Some (7611083370256139 / 70368744177664)"
  unfolding mulDouble_def
  using roundNormal_near [where p = 6 and q = 0 and m = 7611083370256139 and x = "(5854679515581645 / 562949953421312) * (5854679515581645 / 562949953421312)"]
  by simp

lemma rounded_27: "addDouble (3046966622892851 / 35184372088832) (7611083370256139 / 70368744177664) = Some (856563538502615 / 4398046511104)"
  unfolding addDouble_def
  using roundNormal_tie [where p = 7 and q = 0 and f = 6852508308020920 and x = "(3046966622892851 / 35184372088832) + (7611083370256139 / 70368744177664)"]
  by simp

lemma rounded_28: "sqrtDouble (856563538502615 / 4398046511104) = Some (3928164575380991 / 281474976710656)"
  unfolding sqrtDouble_def
  using roundNormal_sqrt_near [where p = 3 and q = 0 and m = 7856329150761982 and x = "856563538502615 / 4398046511104"]
  by (simp add: power2_eq_square)

lemma rounded_29: "mulDouble (3928164575380991 / 281474976710656) (3928164575380991 / 281474976710656) = Some (856563538502615 / 4398046511104)"
  unfolding mulDouble_def
  using roundNormal_near [where p = 7 and q = 0 and m = 6852508308020920 and x = "(3928164575380991 / 281474976710656) * (3928164575380991 / 281474976710656)"]
  by simp

lemma rounded_30: "divDouble (856563538502615 / 4398046511104) (856563538502615 / 4398046511104) = Some 1"
  unfolding divDouble_def
  using roundNormal_near [where p = 0 and q = 0 and m = 4503599627370496 and x = "(856563538502615 / 4398046511104) / (856563538502615 / 4398046511104)"]
  by simp

lemma rounded_31: "addDouble (4731594358506127 / 70368744177664) (7611083370256139 / 70368744177664) = Some (6171338864381133 / 35184372088832)"
  unfolding addDouble_def
  using roundNormal_near [where p = 7 and q = 0 and m = 6171338864381133 and x = "(4731594358506127 / 70368744177664) + (7611083370256139 / 70368744177664)"]
  by simp

lemma rounded_32: "addDouble (6171338864381133 / 35184372088832) (5449355549118301 / 281474976710656) = Some (6852508308020921 / 35184372088832)"
  unfolding addDouble_def
  using roundNormal_near [where p = 7 and q = 0 and m = 6852508308020921 and x = "(6171338864381133 / 35184372088832) + (5449355549118301 / 281474976710656)"]
  by simp

lemma rounded_33: "sqrtDouble (6852508308020921 / 35184372088832) = Some (7856329150761983 / 562949953421312)"
  unfolding sqrtDouble_def
  using roundNormal_sqrt_near [where p = 3 and q = 0 and m = 7856329150761983 and x = "6852508308020921 / 35184372088832"]
  by (simp add: power2_eq_square)

lemma rounded_34: "mulDouble (7856329150761983 / 562949953421312) (7856329150761983 / 562949953421312) = Some (3426254154010461 / 17592186044416)"
  unfolding mulDouble_def
  using roundNormal_near [where p = 7 and q = 0 and m = 6852508308020922 and x = "(7856329150761983 / 562949953421312) * (7856329150761983 / 562949953421312)"]
  by simp

lemma rounded_35: "divDouble (6852508308020921 / 35184372088832) (3426254154010461 / 17592186044416) = Some (9007199254740991 / 9007199254740992)"
  unfolding divDouble_def
  using roundNormal_near [where p = 0 and q = 1 and m = 9007199254740991 and x = "(6852508308020921 / 35184372088832) / (3426254154010461 / 17592186044416)"]
  by simp

lemma rounded_36: "mulDouble 1 0 = Some 0"
  by (simp add: mulDouble_def roundNormal_def normalDouble_def roundDouble_def)

lemma rounded_37: "addDouble 0 0 = Some 0"
  by (simp add: addDouble_def roundNormal_def normalDouble_def roundDouble_def)

lemma rounded_38: "mulDouble 0 0 = Some 0"
  by (simp add: mulDouble_def roundNormal_def normalDouble_def roundDouble_def)

lemma rounded_39: "mulDouble 0 1 = Some 0"
  by (simp add: mulDouble_def roundNormal_def normalDouble_def roundDouble_def)

lemma rounded_40: "addDouble 1 0 = Some 1"
  unfolding addDouble_def
  using roundNormal_near [where p = 0 and q = 0 and m = 4503599627370496 and x = "1 + 0"]
  by simp

lemma rounded_41: "sqrtDouble 1 = Some 1"
  unfolding sqrtDouble_def
  using roundNormal_sqrt_near [where p = 0 and q = 0 and m = 4503599627370496 and x = "1"]
  by (simp add: power2_eq_square)

lemma rounded_42: "divDouble 0 1 = Some 0"
  by (simp add: divDouble_def roundNormal_def normalDouble_def roundDouble_def)

lemmas rounded_operations = rounded_1 rounded_2 rounded_3 rounded_4 rounded_5 rounded_6 rounded_7 rounded_8 rounded_9 rounded_10 rounded_11 rounded_12 rounded_13 rounded_14 rounded_15 rounded_16 rounded_17 rounded_18 rounded_19 rounded_20 rounded_21 rounded_22 rounded_23 rounded_24 rounded_25 rounded_26 rounded_27 rounded_28 rounded_29 rounded_30 rounded_31 rounded_32 rounded_33 rounded_34 rounded_35 rounded_36 rounded_37 rounded_38 rounded_39 rounded_40 rounded_41 rounded_42

lemma threeKeywords_vector:
  "buildVectorDouble threeKeywords = Some [(str ''grid'', 1), (str ''permit'', 1), (str ''hydro'', 1)]"
  by (simp add: threeKeywords_def buildVectorDouble_def exampleScore_def scoreFeature_def exampleFeature_def
      Let_def mapAddDouble_def getOr0_def str_def rounded_operations)

lemma threeKeywords_cosine:
  "cosineSimilarityDouble [(str ''grid'', 1), (str ''permit'', 1), (str ''hydro'', 1)]
     [(str ''grid'', 1), (str ''permit'', 1), (str ''hydro'', 1)] = Some (1 + 1 / 2 ^ 52)"
  by (simp add: cosineSimilarityDouble_def newSet_def setAdd_def cosineStepDouble_def getOr0_def str_def
      Let_def rounded_operations)

lemma energyFirst_vector:
  "buildVectorDouble energyFirst =
     Some [(str ''policy'', 2308094809027379 / 281474976710656), (str ''energy'', 2476979795053773 / 562949953421312), (str ''builder-mp'', 5854679515581645 / 562949953421312)]"
  by (simp add: energyFirst_def buildVectorDouble_def exampleScore_def scoreFeature_def exampleFeature_def
      Let_def mapAddDouble_def getOr0_def str_def rounded_operations)

lemma builderFirst_vector:
  "buildVectorDouble builderFirst =
     Some [(str ''policy'', 2308094809027379 / 281474976710656), (str ''builder-mp'', 5854679515581645 / 562949953421312), (str ''energy'', 2476979795053773 / 562949953421312)]"
  by (simp add: builderFirst_def buildVectorDouble_def exampleScore_def scoreFeature_def exampleFeature_def
      Let_def mapAddDouble_def getOr0_def str_def rounded_operations)

lemma energyFirst_builderFirst_cosine:
  "cosineSimilarityDouble
     [(str ''policy'', 2308094809027379 / 281474976710656), (str ''energy'', 2476979795053773 / 562949953421312), (str ''builder-mp'', 5854679515581645 / 562949953421312)]
     [(str ''policy'', 2308094809027379 / 281474976710656), (str ''builder-mp'', 5854679515581645 / 562949953421312), (str ''energy'', 2476979795053773 / 562949953421312)] = Some 1"
  by (simp add: cosineSimilarityDouble_def newSet_def setAdd_def cosineStepDouble_def getOr0_def str_def
      Let_def rounded_operations)

lemma builderFirst_energyFirst_cosine:
  "cosineSimilarityDouble
     [(str ''policy'', 2308094809027379 / 281474976710656), (str ''builder-mp'', 5854679515581645 / 562949953421312), (str ''energy'', 2476979795053773 / 562949953421312)]
     [(str ''policy'', 2308094809027379 / 281474976710656), (str ''energy'', 2476979795053773 / 562949953421312), (str ''builder-mp'', 5854679515581645 / 562949953421312)] = Some (1 - 1 / 2 ^ 53)"
  by (simp add: cosineSimilarityDouble_def newSet_def setAdd_def cosineStepDouble_def getOr0_def str_def
      Let_def rounded_operations)

lemma oneKeyword_vector:
  "buildVectorDouble (exampleScore [] [str ''grid'']) = Some [(str ''grid'', 1)]"
  "buildVectorDouble (exampleScore [] [str ''permit'']) = Some [(str ''permit'', 1)]"
  "buildVectorDouble (exampleScore [] []) = Some []"
  by (simp_all add: buildVectorDouble_def exampleScore_def scoreFeature_def exampleFeature_def
      Let_def mapAddDouble_def getOr0_def str_def rounded_operations)

lemma oneKeyword_cosine:
  "cosineSimilarityDouble [(str ''grid'', 1)] [] = Some 0"
  "cosineSimilarityDouble [(str ''grid'', 1)] [(str ''permit'', 1)] = Some 0"
  by (simp_all add: cosineSimilarityDouble_def newSet_def setAdd_def cosineStepDouble_def getOr0_def str_def
      Let_def rounded_operations)

subsection \<open>Symmetry, bounds and zeros of the similarity\<close>

text \<open>
  Claim C6 as stated fails in the arithmetic of the code, in two of its parts. The upper
  bound: the similarity of the vector of \<open>threeKeywords\<close> with itself is
  \<open>3 / (Math.sqrt(3) * Math.sqrt(3))\<close>, the product of the two rounded roots is
  \<open>2.9999999999999996\<close>, and the quotient is \<open>1.0000000000000002\<close>, above 1. The symmetry:
  the vectors of \<open>energyFirst\<close> and \<open>builderFirst\<close> have the same entries in another
  order of insertion, the loop adds the squares \<open>67.24\<close>, \<open>19.36\<close> and \<open>108.16\<close> in the order
  of the first argument, and the rounded sums differ in the last place:
  \<open>cosineSimilarity(a, b)\<close> is \<open>1\<close> and \<open>cosineSimilarity(b, a)\<close> is \<open>0.9999999999999999\<close>.
\<close>

theorem cosineSimilarity_double_counterexample:
  "buildVectorDouble threeKeywords = Some [(str ''grid'', 1), (str ''permit'', 1), (str ''hydro'', 1)]
   \<and> cosineSimilarityDouble [(str ''grid'', 1), (str ''permit'', 1), (str ''hydro'', 1)]
         [(str ''grid'', 1), (str ''permit'', 1), (str ''hydro'', 1)] = Some (1 + 1 / 2 ^ 52)
   \<and> buildVectorDouble energyFirst =
         Some [(str ''policy'', 2308094809027379 / 281474976710656), (str ''energy'', 2476979795053773 / 562949953421312), (str ''builder-mp'', 5854679515581645 / 562949953421312)]
   \<and> buildVectorDouble builderFirst =
         Some [(str ''policy'', 2308094809027379 / 281474976710656), (str ''builder-mp'', 5854679515581645 / 562949953421312), (str ''energy'', 2476979795053773 / 562949953421312)]
   \<and> cosineSimilarityDouble
         [(str ''policy'', 2308094809027379 / 281474976710656), (str ''energy'', 2476979795053773 / 562949953421312), (str ''builder-mp'', 5854679515581645 / 562949953421312)]
         [(str ''policy'', 2308094809027379 / 281474976710656), (str ''builder-mp'', 5854679515581645 / 562949953421312), (str ''energy'', 2476979795053773 / 562949953421312)] = Some 1
   \<and> cosineSimilarityDouble
         [(str ''policy'', 2308094809027379 / 281474976710656), (str ''builder-mp'', 5854679515581645 / 562949953421312), (str ''energy'', 2476979795053773 / 562949953421312)]
         [(str ''policy'', 2308094809027379 / 281474976710656), (str ''energy'', 2476979795053773 / 562949953421312), (str ''builder-mp'', 5854679515581645 / 562949953421312)] = Some (1 - 1 / 2 ^ 53)"
  by (simp only: threeKeywords_vector threeKeywords_cosine energyFirst_vector builderFirst_vector
      energyFirst_builderFirst_cosine builderFirst_energyFirst_cosine simp_thms)

text \<open>
  Claim C6, amended. For the vectors \<open>a\<close> and \<open>b\<close> that \<open>buildVector\<close> makes of two scored
  threads, and the similarity \<open>x\<close> that \<open>cosineSimilarity(a, b)\<close> returns, in the doubles of
  the code: \<open>x\<close> is at least 0; it is 0 when one of the vectors has norm zero; it is 0
  when the vectors share no token; and it is at most 1 and symmetric up to rounding: with
  \<open>n\<close> tokens between the two vectors and \<open>r = ((1 + 2^-53) / (1 - 2^-53))^(n + 4)\<close>,
  \<open>x\<close> is at most \<open>r\<close>, and \<open>x\<close> and the similarity \<open>y\<close> that \<open>cosineSimilarity(b, a)\<close>
  returns differ by at most \<open>r - 1 / r\<close>.
\<close>

theorem cosineSimilarity_double_properties:
  "buildVectorDouble s1 = Some a \<Longrightarrow> buildVectorDouble s2 = Some b \<Longrightarrow> cosineSimilarityDouble a b = Some x
   \<Longrightarrow> 0 \<le> x
       \<and> x \<le> roundingFactor (card (tokenSet a b))
       \<and> (cosineSimilarityDouble b a = Some y
            \<longrightarrow> \<bar>x - y\<bar> \<le> roundingFactor (card (tokenSet a b)) - 1 / roundingFactor (card (tokenSet a b)))
       \<and> (vectorNorm a = 0 \<or> vectorNorm b = 0 \<longrightarrow> x = 0)
       \<and> (set (map fst a) \<inter> set (map fst b) = {} \<longrightarrow> x = 0)"
proof -
  assume a: "buildVectorDouble s1 = Some a" and b: "buildVectorDouble s2 = Some b"
    and x: "cosineSimilarityDouble a b = Some x"
  note f = cosineSimilarityDouble_facts [OF nonnegVector_buildVectorDouble [OF a]
      nonnegVector_buildVectorDouble [OF b] x]
  from f(1) f(2) f(3) [of y] f(4) f(5)
  show "0 \<le> x
       \<and> x \<le> roundingFactor (card (tokenSet a b))
       \<and> (cosineSimilarityDouble b a = Some y
            \<longrightarrow> \<bar>x - y\<bar> \<le> roundingFactor (card (tokenSet a b)) - 1 / roundingFactor (card (tokenSet a b)))
       \<and> (vectorNorm a = 0 \<or> vectorNorm b = 0 \<longrightarrow> x = 0)
       \<and> (set (map fst a) \<inter> set (map fst b) = {} \<longrightarrow> x = 0)"
    by blast
qed

theorem cosineSimilarity_double_properties_witness:
  "buildVectorDouble energyFirst =
     Some [(str ''policy'', 2308094809027379 / 281474976710656), (str ''energy'', 2476979795053773 / 562949953421312), (str ''builder-mp'', 5854679515581645 / 562949953421312)]
   \<and> buildVectorDouble builderFirst =
     Some [(str ''policy'', 2308094809027379 / 281474976710656), (str ''builder-mp'', 5854679515581645 / 562949953421312), (str ''energy'', 2476979795053773 / 562949953421312)]
   \<and> cosineSimilarityDouble
         [(str ''policy'', 2308094809027379 / 281474976710656), (str ''energy'', 2476979795053773 / 562949953421312), (str ''builder-mp'', 5854679515581645 / 562949953421312)]
         [(str ''policy'', 2308094809027379 / 281474976710656), (str ''builder-mp'', 5854679515581645 / 562949953421312), (str ''energy'', 2476979795053773 / 562949953421312)] = Some 1
   \<and> cosineSimilarityDouble
         [(str ''policy'', 2308094809027379 / 281474976710656), (str ''builder-mp'', 5854679515581645 / 562949953421312), (str ''energy'', 2476979795053773 / 562949953421312)]
         [(str ''policy'', 2308094809027379 / 281474976710656), (str ''energy'', 2476979795053773 / 562949953421312), (str ''builder-mp'', 5854679515581645 / 562949953421312)] = Some (1 - 1 / 2 ^ 53)
   \<and> 1 \<le> roundingFactor (card (tokenSet
         [(str ''policy'', 2308094809027379 / 281474976710656), (str ''energy'', 2476979795053773 / 562949953421312), (str ''builder-mp'', 5854679515581645 / 562949953421312)]
         [(str ''policy'', 2308094809027379 / 281474976710656), (str ''builder-mp'', 5854679515581645 / 562949953421312), (str ''energy'', 2476979795053773 / 562949953421312)]))
   \<and> \<bar>1 - (1 - 1 / 2 ^ 53)\<bar> \<le> roundingFactor (card (tokenSet
         [(str ''policy'', 2308094809027379 / 281474976710656), (str ''energy'', 2476979795053773 / 562949953421312), (str ''builder-mp'', 5854679515581645 / 562949953421312)]
         [(str ''policy'', 2308094809027379 / 281474976710656), (str ''builder-mp'', 5854679515581645 / 562949953421312), (str ''energy'', 2476979795053773 / 562949953421312)]))
       - 1 / roundingFactor (card (tokenSet
         [(str ''policy'', 2308094809027379 / 281474976710656), (str ''energy'', 2476979795053773 / 562949953421312), (str ''builder-mp'', 5854679515581645 / 562949953421312)]
         [(str ''policy'', 2308094809027379 / 281474976710656), (str ''builder-mp'', 5854679515581645 / 562949953421312), (str ''energy'', 2476979795053773 / 562949953421312)]))
   \<and> buildVectorDouble (exampleScore [] [str ''grid'']) = Some [(str ''grid'', 1)]
   \<and> buildVectorDouble (exampleScore [] [str ''permit'']) = Some [(str ''permit'', 1)]
   \<and> buildVectorDouble (exampleScore [] []) = Some []
   \<and> vectorNorm [] = 0
   \<and> set (map fst [(str ''grid'', 1 :: real)]) \<inter> set (map fst [(str ''permit'', 1 :: real)]) = {}
   \<and> cosineSimilarityDouble [(str ''grid'', 1)] [] = Some 0
   \<and> cosineSimilarityDouble [(str ''grid'', 1)] [(str ''permit'', 1)] = Some 0"
proof -
  note p = cosineSimilarity_double_properties [OF energyFirst_vector builderFirst_vector
      energyFirst_builderFirst_cosine, of "1 - 1 / 2 ^ 53"]
  note z = cosineSimilarity_double_properties [OF oneKeyword_vector(1) oneKeyword_vector(3) oneKeyword_cosine(1)]
  note d = cosineSimilarity_double_properties [OF oneKeyword_vector(1) oneKeyword_vector(2) oneKeyword_cosine(2)]
  have n: "vectorNorm [] = 0" by (simp add: vectorNorm_def)
  have i: "set (map fst [(str ''grid'', 1 :: real)]) \<inter> set (map fst [(str ''permit'', 1 :: real)]) = {}"
    by (simp add: str_def)
  from p builderFirst_energyFirst_cosine z d n i energyFirst_vector builderFirst_vector
    energyFirst_builderFirst_cosine oneKeyword_vector oneKeyword_cosine
  show ?thesis by blast
qed

subsection \<open>Cluster labels\<close>

text \<open>
  The label the claim describes, from a list of tokens ranked by weight: the first two
  joined by the separator, the only one, or \<open>general\<close>.
\<close>

definition labelOfTokens :: "jsstring list \<Rightarrow> jsstring" where
  "labelOfTokens ts =
     (case ts of
        t1 # t2 # _ \<Rightarrow> t1 @ labelSeparator @ t2
      | [t] \<Rightarrow> t
      | [] \<Rightarrow> str ''general'')"

text \<open>
  What \<open>buildLabel\<close> ranks: the topic slugs of the members' topic hits, each weighted
  by the sum of \<open>keywordHits + 2 * bigramHits\<close> over the hits of that slug, in descending
  order of weight, slugs of equal weight in the order they are first met.
\<close>

definition allTopicHits :: "ThreadScore list \<Rightarrow> TopicHitMetric list" where
  "allTopicHits ms = concat (map (\<lambda>s. topicHits (feature s)) ms)"

definition slugWeight :: "ThreadScore list \<Rightarrow> jsstring \<Rightarrow> real" where
  "slugWeight ms t = (\<Sum>hit \<leftarrow> filter (\<lambda>hit. slug hit = t) (allTopicHits ms). keywordHits hit + bigramHits hit * 2)"

definition rankedSlugs :: "ThreadScore list \<Rightarrow> jsstring list" where
  "rankedSlugs ms = sort_key (\<lambda>t. - slugWeight ms t) (newSet (map slug (allTopicHits ms)))"

lemma map_fst_mapSet: "map fst (mapSet m k v) = setAdd (map fst m) k"
proof (induction m)
  case Nil
  then show ?case by (simp add: setAdd_def)
next
  case (Cons x m)
  obtain k' v' where x: "x = (k', v')" by (cases x)
  show ?case
  proof (cases "k' = k")
    case True
    then show ?thesis by (simp add: x setAdd_def)
  next
    case False
    then have "setAdd (map fst (x # m)) k = k' # setAdd (map fst m) k"
      by (simp add: x setAdd_def)
    with False Cons.IH show ?thesis by (simp add: x)
  qed
qed

lemma getOr0_Nil: "getOr0 [] t = 0"
  by (simp add: getOr0_def)

lemma map_of_mapSet: "map_of (mapSet m k v) = (map_of m)(k \<mapsto> v)"
  by (induction m) (auto simp: fun_eq_iff)

lemma map_fst_mapAdd: "map fst (mapAdd m k w) = setAdd (map fst m) k"
  by (simp add: mapAdd_def map_fst_mapSet)

lemma getOr0_mapAdd: "getOr0 (mapAdd m k w) t = (if t = k then getOr0 m k + w else getOr0 m t)"
  by (simp add: mapAdd_def getOr0_def map_of_mapSet)

lemma distinct_setAdd: "distinct s \<Longrightarrow> distinct (setAdd s x)"
  by (simp add: setAdd_def)

lemma foldl_mapAdd_keys:
  "map fst (foldl (\<lambda>m h. mapAdd m (k h) (w h)) m hs) = foldl setAdd (map fst m) (map k hs)"
  by (induction hs arbitrary: m) (simp_all add: map_fst_mapAdd)

lemma foldl_mapAdd_value:
  "getOr0 (foldl (\<lambda>m h. mapAdd m (k h) (w h)) m hs) t = getOr0 m t + (\<Sum>h \<leftarrow> filter (\<lambda>h. k h = t) hs. w h)"
  by (induction hs arbitrary: m) (simp_all add: getOr0_mapAdd)

lemma distinct_keys_entries:
  "distinct (map fst m) \<Longrightarrow> m = map (\<lambda>t. (t, getOr0 m t)) (map fst m)"
proof (induction m)
  case Nil
  then show ?case by simp
next
  case (Cons x m)
  obtain k v where x: "x = (k, v)" by (cases x)
  from Cons.prems have d: "distinct (map fst m)" and nk: "k \<notin> set (map fst m)" by (simp_all add: x)
  have "map (\<lambda>t. (t, getOr0 (x # m) t)) (map fst m) = map (\<lambda>t. (t, getOr0 m t)) (map fst m)"
    using nk by (intro map_cong) (auto simp: getOr0_def x)
  with Cons.IH [OF d] show ?case by (simp add: x getOr0_def)
qed

lemma foldl_mapAdd_entries:
  "foldl (\<lambda>m h. mapAdd m (k h) (w h)) [] hs
     = map (\<lambda>t. (t, \<Sum>h \<leftarrow> filter (\<lambda>h. k h = t) hs. w h)) (newSet (map k hs))"
proof -
  let ?m = "foldl (\<lambda>m h. mapAdd m (k h) (w h)) [] hs"
  have keys: "map fst ?m = newSet (map k hs)"
    by (simp add: foldl_mapAdd_keys newSet_def)
  then have "distinct (map fst ?m)" by (simp add: distinct_newSet)
  then have "?m = map (\<lambda>t. (t, getOr0 ?m t)) (map fst ?m)" by (rule distinct_keys_entries)
  also have "\<dots> = map (\<lambda>t. (t, \<Sum>h \<leftarrow> filter (\<lambda>h. k h = t) hs. w h)) (newSet (map k hs))"
    unfolding keys by (simp add: foldl_mapAdd_value getOr0_Nil)
  finally show ?thesis .
qed

lemma foldl_foldl_concat: "foldl (\<lambda>a xs. foldl f a xs) a xss = foldl f a (concat xss)"
  by (induction xss arbitrary: a) simp_all

lemma insort_key_map:
  "insort_key g (f x) (map f ys) = map f (insort_key (\<lambda>y. g (f y)) x ys)"
  by (induction ys) simp_all

lemma sort_key_map: "sort_key g (map f xs) = map f (sort_key (\<lambda>y. g (f y)) xs)"
  by (induction xs) (simp_all add: insort_key_map)

lemma label_case_labelOfTokens:
  "(case entries of first # second # _ \<Rightarrow> fst first @ labelSeparator @ fst second
      | [only] \<Rightarrow> fst only | [] \<Rightarrow> str ''general'') = labelOfTokens (map fst entries)"
  by (simp add: labelOfTokens_def split: list.splits)

lemma buildLabel_rankedSlugs: "buildLabel ms = labelOfTokens (rankedSlugs ms)"
proof (cases "ms = []")
  case True
  then show ?thesis
    by (simp add: buildLabel_def rankedSlugs_def allTopicHits_def newSet_def labelOfTokens_def)
next
  case False
  let ?step = "\<lambda>tokens hit. mapAdd tokens (slug hit) (keywordHits hit + bigramHits hit * 2)"
  let ?tokens = "foldl (\<lambda>tokens s. foldl ?step tokens (topicHits (feature s))) [] ms"
  have "?tokens = foldl ?step [] (allTopicHits ms)"
    using foldl_foldl_concat [of ?step "[]" "map (\<lambda>s. topicHits (feature s)) ms"]
    by (simp add: allTopicHits_def foldl_map)
  also have "\<dots> = map (\<lambda>t. (t, slugWeight ms t)) (newSet (map slug (allTopicHits ms)))"
    unfolding slugWeight_def by (rule foldl_mapAdd_entries)
  finally have tokens: "?tokens = map (\<lambda>t. (t, slugWeight ms t)) (newSet (map slug (allTopicHits ms)))" .
  have "sortBy (\<lambda>a b. snd b - snd a) ?tokens = sort_key (\<lambda>p. - snd p) ?tokens"
    by (rule sortBy_sort_key) simp
  also have "\<dots> = map (\<lambda>t. (t, slugWeight ms t)) (rankedSlugs ms)"
    unfolding tokens rankedSlugs_def by (simp add: sort_key_map)
  finally have ranked: "sortBy (\<lambda>a b. snd b - snd a) ?tokens = map (\<lambda>t. (t, slugWeight ms t)) (rankedSlugs ms)" .
  have "buildLabel ms = labelOfTokens (map fst (sortBy (\<lambda>a b. snd b - snd a) ?tokens))"
    using False by (simp add: buildLabel_def Let_def label_case_labelOfTokens)
  also have "\<dots> = labelOfTokens (rankedSlugs ms)"
    unfolding ranked by (simp add: comp_def)
  finally show ?thesis .
qed

lemma clusterLoop_label:
  "\<forall>c \<in> set acc. label c = buildLabel (members c) \<Longrightarrow>
   \<forall>c \<in> set (clusterLoop scores vectors is visited acc). label c = buildLabel (members c)"
proof (induction "is" arbitrary: visited acc)
  case Nil
  then show ?case by simp
next
  case (Cons i rest)
  show ?case
  proof (cases "i \<in> visited")
    case True
    then show ?thesis using Cons.IH [OF Cons.prems] by simp
  next
    case False
    obtain ms v' where a: "absorb (vectors ! i) vectors [i + 1 ..< length scores] [i] (insert i visited) = (ms, v')"
      by (cases "absorb (vectors ! i) vectors [i + 1 ..< length scores] [i] (insert i visited)")
    let ?c = "\<lparr> clusterId = str ''cluster-'' @ natToString i, label = buildLabel (map (\<lambda>index. scores ! index) ms),
                 members = map (\<lambda>index. scores ! index) ms, topTokens = topTokensForCluster ms vectors 2 \<rparr>"
    have "\<forall>c \<in> set (acc @ [?c]). label c = buildLabel (members c)"
      using Cons.prems by simp
    from Cons.IH [OF this, of v']
    show ?thesis using False a by (simp add: Let_def)
  qed
qed

lemma analyze_label: "\<forall>c \<in> set (clusters (analyze scores)). label c = buildLabel (members c)"
proof (cases "scores = []")
  case True
  then show ?thesis by (simp add: analyze_def)
next
  case False
  have "\<forall>c \<in> set ([] :: ThreadCluster list). label c = buildLabel (members c)" by simp
  from clusterLoop_label [OF this, of scores "map buildVector scores" "[0 ..< length scores]" "{}"]
  show ?thesis using False by (simp add: analyze_def Let_def)
qed

text \<open>
  A thread with one keyword hit on the topic \<open>policy\<close> (boost 1.2) and the matched
  keyword \<open>permit\<close>.
\<close>

definition labelExample :: ThreadScore where
  "labelExample =
     exampleScore [\<lparr> slug = str ''policy'', keywordHits = 1, bigramHits = 0, boost = 6 / 5 \<rparr>]
                  [str ''permit'']"

lemma analyze_labelExample:
  "clusters (analyze [labelExample]) =
     [\<lparr> clusterId = str ''cluster-0'', label = str ''policy'', members = [labelExample],
        topTokens = [str ''policy'', str ''permit''] \<rparr>]"
proof -
  have v: "buildVector labelExample = [(str ''policy'', 12 / 5), (str ''permit'', 1)]"
    by (simp add: labelExample_def exampleScore_def scoreFeature_def exampleFeature_def
        buildVector_def Let_def mapAdd_def str_def)
  have l: "buildLabel [labelExample] = str ''policy''"
    by (simp add: labelExample_def exampleScore_def scoreFeature_def exampleFeature_def
        buildLabel_def Let_def mapAdd_def sortBy_def)
  have t: "topTokensForCluster [0] [[(str ''policy'', 12 / 5), (str ''permit'', 1)]] 2 = [str ''policy'', str ''permit'']"
    by (simp add: topTokensForCluster_def Let_def mapAdd_def sortBy_def str_def)
  have n: "natToString 0 = str ''0''"
    by (simp add: natToString.simps str_def)
  show ?thesis
    by (simp add: analyze_def Let_def v l t n) (simp add: str_def)
qed

text \<open>
  Claim C8 as stated fails: the only cluster of \<open>analyze [labelExample]\<close> has the top
  tokens \<open>policy\<close> and \<open>permit\<close>, the two highest-weighted tokens of its summed member
  vectors, but its label is \<open>policy\<close> alone, not the two joined.
\<close>

theorem label_top_tokens_counterexample:
  "clusters (analyze [labelExample]) =
     [\<lparr> clusterId = str ''cluster-0'', label = str ''policy'', members = [labelExample],
        topTokens = [str ''policy'', str ''permit''] \<rparr>]
   \<and> labelOfTokens [str ''policy'', str ''permit''] \<noteq> str ''policy''"
  by (simp add: analyze_labelExample) (simp add: labelOfTokens_def str_def)

text \<open>
  Claim C8, amended. The label of every cluster returned by \<open>analyze\<close> is made of the
  topic slugs of its members' topic hits, ranked by the sum of
  \<open>keywordHits + 2 * bigramHits\<close> per slug (no boost, matched keywords not counted; slugs
  of equal weight in the order they are first met): the two first joined by the
  separator, the only slug when there is one, \<open>general\<close> when no member has a topic hit.
\<close>

theorem cluster_label_ranked_slugs:
  "\<forall>c \<in> set (clusters (analyze scores)). label c = labelOfTokens (rankedSlugs (members c))"
  using analyze_label [of scores] by (simp add: buildLabel_rankedSlugs)

theorem cluster_label_ranked_slugs_witness:
  "hd (clusters (analyze [labelExample])) \<in> set (clusters (analyze [labelExample]))
   \<and> label (hd (clusters (analyze [labelExample])))
       = labelOfTokens (rankedSlugs (members (hd (clusters (analyze [labelExample])))))
   \<and> label (hd (clusters (analyze [labelExample]))) = str ''policy''"
proof -
  have m: "hd (clusters (analyze [labelExample])) \<in> set (clusters (analyze [labelExample]))"
    by (simp add: analyze_labelExample)
  from cluster_label_ranked_slugs [of "[labelExample]"] m
  have "label (hd (clusters (analyze [labelExample])))
          = labelOfTokens (rankedSlugs (members (hd (clusters (analyze [labelExample])))))"
    by blast
  moreover have "label (hd (clusters (analyze [labelExample]))) = str ''policy''"
    by (simp add: analyze_labelExample)
  ultimately show ?thesis using m by blast
qed

section \<open>Summarizer\<close>

subsection \<open>Strings and regular expressions of the runtime\<close>

text \<open>
  The character classes of the regular expressions: \<open>\s\<close> (which is also what \<open>trim\<close>
  strips), the line terminators that \<open>.\<close> does not match and after which \<open>^\<close> matches
  under the \<open>m\<close> flag, \<open>\d\<close>, and the class \<open>[a-z0-9\[\]]\<close> of the tokenizer.
\<close>

definition isWhiteSpace :: "jschar \<Rightarrow> bool" where
  "isWhiteSpace c =
     (c \<in> {0x09, 0x0A, 0x0B, 0x0C, 0x0D, 0x20, 0xA0, 0x1680, 0x2028, 0x2029, 0x202F, 0x205F, 0x3000, 0xFEFF}
      \<or> (0x2000 \<le> c \<and> c \<le> 0x200A))"

definition isLineTerminator :: "jschar \<Rightarrow> bool" where
  "isLineTerminator c = (c \<in> {0x0A, 0x0D, 0x2028, 0x2029})"

definition isDigit :: "jschar \<Rightarrow> bool" where
  "isDigit c = (0x30 \<le> c \<and> c \<le> 0x39)"

definition isTokenChar :: "jschar \<Rightarrow> bool" where
  "isTokenChar c = ((0x61 \<le> c \<and> c \<le> 0x7A) \<or> isDigit c \<or> c = 0x5B \<or> c = 0x5D)"

lemma length_dropWhile_less_Suc [termination_simp]: "length (dropWhile P xs) < Suc (length xs)"
  using length_dropWhile_le [of P xs] by simp

lemma length_tl_dropWhile_less_Suc [termination_simp]:
  "length (dropWhile P xs) - Suc 0 < Suc (length xs)"
  using length_dropWhile_le [of P xs] by simp

lemma length_tl_dropWhile_tl_less_Suc [termination_simp]:
  "length (dropWhile P (tl xs)) - Suc 0 < Suc (length xs)"
  using length_dropWhile_le [of P "tl xs"] by simp

text \<open>\<open>s.replace(/\s+/g, ' ')\<close>\<close>

fun collapseWhitespace :: "jsstring \<Rightarrow> jsstring" where
  "collapseWhitespace [] = []"
| "collapseWhitespace (c # cs) =
     (if isWhiteSpace c then 0x20 # collapseWhitespace (dropWhile isWhiteSpace cs)
      else c # collapseWhitespace cs)"

text \<open>\<open>s.trim()\<close>\<close>

definition trim :: "jsstring \<Rightarrow> jsstring" where
  "trim s = rev (dropWhile isWhiteSpace (rev (dropWhile isWhiteSpace s)))"

text \<open>The first occurrence of a pattern in a string: what is before it and what is after it.\<close>

fun findSub :: "jsstring \<Rightarrow> jsstring \<Rightarrow> (jsstring \<times> jsstring) option" where
  "findSub pat [] = (if pat = [] then Some ([], []) else None)"
| "findSub pat (c # cs) =
     (if prefix pat (c # cs) then Some ([], drop (length pat) (c # cs))
      else (case findSub pat cs of
              None \<Rightarrow> None
            | Some (before, after) \<Rightarrow> Some (c # before, after)))"

text \<open>\<open>s.includes(pat)\<close>\<close>

definition stringIncludes :: "jsstring \<Rightarrow> jsstring \<Rightarrow> bool" where
  "stringIncludes s pat = (findSub pat s \<noteq> None)"

lemma findSub_length:
  "findSub pat s = Some (before, after) \<Longrightarrow> length before + length pat + length after = length s"
proof (induction s arbitrary: before after)
  case Nil
  then show ?case by (simp split: if_splits)
next
  case (Cons c cs)
  show ?case
  proof (cases "prefix pat (c # cs)")
    case True
    then have "length pat \<le> length (c # cs)" by (rule prefix_length_le)
    with True Cons.prems show ?thesis by auto
  next
    case False
    with Cons.prems obtain b where "findSub pat cs = Some (b, after)" and "before = c # b"
      by (auto split: option.splits)
    with Cons.IH [of b after] show ?thesis by simp
  qed
qed

text \<open>
  \<open>s.replace(/```[\s\S]*?```/g, ' ')\<close>: from the first fence to the nearest fence after
  it; an opening fence with no closing one matches nowhere.
\<close>

definition fence :: jsstring where
  "fence = [0x60, 0x60, 0x60]"

function removeCodeBlocks :: "jsstring \<Rightarrow> jsstring" where
  "removeCodeBlocks s =
     (case findSub fence s of
        None \<Rightarrow> s
      | Some (before, rest) \<Rightarrow>
          (case findSub fence rest of
             None \<Rightarrow> s
           | Some (body, after) \<Rightarrow> before @ [0x20] @ removeCodeBlocks after))"
  by pat_completeness auto
termination
proof (relation "measure length")
  show "wf (measure length)" by simp
next
  fix s x2 before rest x2a body after
  assume "findSub fence s = Some x2" "(before, rest) = x2" "findSub fence rest = Some x2a" "(body, after) = x2a"
  then have "findSub fence s = Some (before, rest)" "findSub fence rest = Some (body, after)" by simp_all
  from findSub_length [OF this(1)] findSub_length [OF this(2)]
  show "(after, s) \<in> measure length" by (simp add: fence_def)
qed

declare removeCodeBlocks.simps [simp del]

text \<open>\<open>s.replace(/`[^`]+`/g, ' ')\<close>\<close>

fun removeInlineCode :: "jsstring \<Rightarrow> jsstring" where
  "removeInlineCode [] = []"
| "removeInlineCode (c # cs) =
     (if c = 0x60 \<and> takeWhile (\<lambda>x. x \<noteq> 0x60) cs \<noteq> [] \<and> dropWhile (\<lambda>x. x \<noteq> 0x60) cs \<noteq> []
      then 0x20 # removeInlineCode (tl (dropWhile (\<lambda>x. x \<noteq> 0x60) cs))
      else c # removeInlineCode cs)"

text \<open>
  \<open>s.replace(/^>.*$/gm, ' ')\<close>: the flag says whether the position is the start of a
  line (the start of the string, or just after a line terminator).
\<close>

fun removeQuoteLines :: "bool \<Rightarrow> jsstring \<Rightarrow> jsstring" where
  "removeQuoteLines atLineStart [] = []"
| "removeQuoteLines atLineStart (c # cs) =
     (if atLineStart \<and> c = 0x3E
      then 0x20 # removeQuoteLines False (dropWhile (\<lambda>x. \<not> isLineTerminator x) cs)
      else c # removeQuoteLines (isLineTerminator c) cs)"

text \<open>
  \<open>s.replace(/https?:\/\/\S+/gi, ' [link] ')\<close>: under the \<open>i\<close> flag a letter of the
  pattern matches itself and its ASCII capital.
\<close>

definition asciiLower :: "jschar \<Rightarrow> jschar" where
  "asciiLower c = (if 0x41 \<le> c \<and> c \<le> 0x5A then c + 0x20 else c)"

definition linkPrefixLength :: "jsstring \<Rightarrow> nat option" where
  "linkPrefixLength s =
     (if map asciiLower (take 8 s) = str ''https://'' then Some 8
      else if map asciiLower (take 7 s) = str ''http://'' then Some 7
      else None)"

function replaceLinks :: "jsstring \<Rightarrow> jsstring" where
  "replaceLinks [] = []"
| "replaceLinks (c # cs) =
     (case linkPrefixLength (c # cs) of
        None \<Rightarrow> c # replaceLinks cs
      | Some n \<Rightarrow>
          (let rest = drop (n - 1) cs
           in if rest \<noteq> [] \<and> \<not> isWhiteSpace (hd rest)
              then str '' [link] '' @ replaceLinks (dropWhile (\<lambda>x. \<not> isWhiteSpace x) rest)
              else c # replaceLinks cs))"
  by pat_completeness auto
termination
proof (relation "measure length")
  show "wf (measure length)" by simp
next
  fix c cs show "(cs, c # cs) \<in> measure length" by simp
next
  fix c :: jschar and cs :: jsstring and n rest
  assume "rest = drop (n - 1) cs"
  then have "length (dropWhile (\<lambda>x. \<not> isWhiteSpace x) rest) \<le> length cs"
    using length_dropWhile_le [of "\<lambda>x. \<not> isWhiteSpace x" rest] by simp
  then show "(dropWhile (\<lambda>x. \<not> isWhiteSpace x) rest, c # cs) \<in> measure length" by simp
next
  fix c cs show "(cs, c # cs) \<in> measure length" by simp
qed

text \<open>\<open>s.replace(/<@!?\d+>/g, ' member ')\<close>\<close>

definition mentionRest :: "jsstring \<Rightarrow> jsstring option" where
  "mentionRest cs =
     (case cs of
        sign # others \<Rightarrow>
          (if sign = 0x40 then
             (let digitsOn = (case others of bang # others' \<Rightarrow> (if bang = 0x21 then others' else others) | [] \<Rightarrow> others);
                  rest = dropWhile isDigit digitsOn
              in if takeWhile isDigit digitsOn \<noteq> [] \<and> rest \<noteq> [] \<and> hd rest = 0x3E
                 then Some (tl rest) else None)
           else None)
      | [] \<Rightarrow> None)"

lemma mentionRest_length: "mentionRest cs = Some rest \<Longrightarrow> length rest < length cs"
proof -
  have d: "length (tl (dropWhile isDigit xs)) \<le> length xs" for xs :: jsstring
    using length_dropWhile_le [of isDigit xs] by simp
  assume a: "mentionRest cs = Some rest"
  then obtain sign others where cs: "cs = sign # others" by (cases cs) (simp_all add: mentionRest_def)
  define digitsOn where "digitsOn = (case others of bang # others' \<Rightarrow> (if bang = 0x21 then others' else others) | [] \<Rightarrow> others)"
  have l: "length digitsOn \<le> length others" by (simp add: digitsOn_def split: list.splits)
  from a have "rest = tl (dropWhile isDigit digitsOn)"
    by (simp add: mentionRest_def cs digitsOn_def Let_def split: if_splits)
  with d [of digitsOn] l show ?thesis by (simp add: cs)
qed

function replaceMentions :: "jsstring \<Rightarrow> jsstring" where
  "replaceMentions [] = []"
| "replaceMentions (c # cs) =
     (if c = 0x3C then
        (case mentionRest cs of
           None \<Rightarrow> c # replaceMentions cs
         | Some rest \<Rightarrow> str '' member '' @ replaceMentions rest)
      else c # replaceMentions cs)"
  by pat_completeness auto
termination
  by (relation "measure length") (auto dest: mentionRest_length)

text \<open>\<open>s.replace(/<#[^>]+>/g, ' channel ')\<close>\<close>

fun replaceChannels :: "jsstring \<Rightarrow> jsstring" where
  "replaceChannels [] = []"
| "replaceChannels (c # cs) =
     (if c = 0x3C \<and> cs \<noteq> [] \<and> hd cs = 0x23
         \<and> takeWhile (\<lambda>x. x \<noteq> 0x3E) (tl cs) \<noteq> [] \<and> dropWhile (\<lambda>x. x \<noteq> 0x3E) (tl cs) \<noteq> []
      then str '' channel '' @ replaceChannels (tl (dropWhile (\<lambda>x. x \<noteq> 0x3E) (tl cs)))
      else c # replaceChannels cs)"

subsection \<open>Sentence documents\<close>

record SentenceDoc =
  docId :: jsstring
  author :: jsstring
  original :: jsstring
  normalized :: jsstring
  tokens :: "jsstring list"
  ngrams :: "jsstring list"
  tf :: "(jsstring, real) jsmap"
  uniqueTokens :: "jsstring list"
  docLength :: real
  position :: real
  docTimestamp :: int

record TokensUsed =
  inputTokens :: real
  outputTokens :: real

record ExtractiveSummaryResult =
  summary :: jsstring
  tokensUsed :: TokensUsed
  cost :: real
  selectedIds :: "jsstring list"

record Topic =
  topicSlug :: jsstring
  topicKeywords :: "jsstring list"
  topicBigrams :: "jsstring list"
  topicBoost :: real

definition stopwords :: "jsstring list" where
  "stopwords = map str
     [''a'', ''about'', ''after'', ''again'', ''against'', ''all'', ''am'', ''an'', ''and'', ''any'', ''are'', ''as'', ''at'',
      ''be'', ''because'', ''been'', ''before'', ''being'', ''below'', ''between'', ''both'', ''but'', ''by'', ''can'', ''did'',
      ''do'', ''does'', ''doing'', ''down'', ''during'', ''each'', ''few'', ''for'', ''from'', ''further'', ''had'', ''has'',
      ''have'', ''having'', ''he'', ''her'', ''here'', ''hers'', ''herself'', ''him'', ''himself'', ''his'', ''how'', ''i'',
      ''if'', ''in'', ''into'', ''is'', ''it'', ''its'', ''itself'', ''just'', ''me'', ''more'', ''most'', ''my'', ''myself'',
      ''no'', ''nor'', ''not'', ''now'', ''of'', ''off'', ''on'', ''once'', ''only'', ''or'', ''other'', ''our'', ''ours'',
      ''ourselves'', ''out'', ''over'', ''own'', ''same'', ''she'', ''should'', ''so'', ''some'', ''such'', ''than'', ''that'',
      ''the'', ''their'', ''theirs'', ''them'', ''themselves'', ''then'', ''there'', ''these'', ''they'', ''this'', ''those'',
      ''through'', ''to'', ''too'', ''under'', ''until'', ''up'', ''very'', ''was'', ''we'', ''were'', ''what'', ''when'',
      ''where'', ''which'', ''while'', ''who'', ''whom'', ''why'', ''with'', ''you'', ''your'', ''yours'', ''yourself'',
      ''yourselves'', ''ai'', ''canada'', ''builds'', ''project'', ''team'']"

definition stripFormatting :: "jsstring \<Rightarrow> jsstring" where
  "stripFormatting content' =
     trim (collapseWhitespace (replaceChannels (replaceMentions (replaceLinks
       (removeQuoteLines True (removeInlineCode (removeCodeBlocks content')))))))"

text \<open>
  \<open>splitSentences\<close>: \<open>content.split(/([.!?])/)\<close> alternates the text between two
  terminators with the terminator itself, so the loop closes a sentence at every
  \<open>.\<close>, \<open>!\<close> or \<open>?\<close>. The first argument is the buffer.
\<close>

definition isSentenceEnd :: "jschar \<Rightarrow> bool" where
  "isSentenceEnd c = (c = 0x2E \<or> c = 0x21 \<or> c = 0x3F)"

fun splitLoop :: "jsstring \<Rightarrow> jsstring \<Rightarrow> jsstring list" where
  "splitLoop buffer [] = (let tail = trim buffer in if length tail > 0 then [tail] else [])"
| "splitLoop buffer (c # cs) =
     (if isSentenceEnd c
      then (let trimmed = trim (buffer @ [c])
            in (if length trimmed > 0 then [trimmed] else []) @ splitLoop [] cs)
      else splitLoop (buffer @ [c]) cs)"

definition splitSentences :: "jsstring \<Rightarrow> jsstring list" where
  "splitSentences content' = splitLoop [] content'"

text \<open>
  \<open>toLowerCase\<close>, as far as the code can see it: both callers keep only the code units
  \<open>[a-z0-9\[\]]\<close> and white space of the result and treat every other code unit alike,
  and \<open>A\<close> to \<open>Z\<close>, the Kelvin sign and the dotted capital I are the code units that
  \<open>toLowerCase\<close> takes into that class. All other code units are left as they are here.
\<close>

fun toLowerCase :: "jsstring \<Rightarrow> jsstring" where
  "toLowerCase [] = []"
| "toLowerCase (c # cs) =
     (if 0x41 \<le> c \<and> c \<le> 0x5A then (c + 0x20) # toLowerCase cs
      else if c = 0x212A then 0x6B # toLowerCase cs
      else if c = 0x0130 then 0x69 # 0x0307 # toLowerCase cs
      else c # toLowerCase cs)"

text \<open>\<open>normalize\<close> of the source: lower case, \<open>/[^a-z0-9\[\]\s]/g\<close> to a space, \<open>/\s+/g\<close> to a space, trim.\<close>

definition normalizeText :: "jsstring \<Rightarrow> jsstring" where
  "normalizeText text' =
     trim (collapseWhitespace
       (map (\<lambda>c. if isTokenChar c \<or> isWhiteSpace c then c else 0x20) (toLowerCase text')))"

text \<open>\<open>text.split(/[^a-z0-9\[\]]+/).filter(Boolean)\<close>: the maximal runs of token characters.\<close>

fun tokenize :: "jsstring \<Rightarrow> jsstring list" where
  "tokenize [] = []"
| "tokenize (c # cs) =
     (if isTokenChar c then (c # takeWhile isTokenChar cs) # tokenize (dropWhile isTokenChar cs)
      else tokenize cs)"

definition endsWith :: "jsstring \<Rightarrow> jsstring \<Rightarrow> bool" where
  "endsWith s suffix' = suffix suffix' s"

definition stem :: "jsstring \<Rightarrow> jsstring" where
  "stem token =
     (if length token \<le> 4 then token
      else if endsWith token (str ''ing'') \<or> endsWith token (str ''ers'') then take (length token - 3) token
      else if endsWith token (str ''ed'') \<or> endsWith token (str ''es'') then take (length token - 2) token
      else if endsWith token (str ''s'') \<and> length token > 3 then take (length token - 1) token
      else token)"

fun bigramsOf :: "jsstring list \<Rightarrow> jsstring list" where
  "bigramsOf (a # b # rest) = (a @ str ''_'' @ b) # bigramsOf (b # rest)"
| "bigramsOf _ = []"

fun trigramsOf :: "jsstring list \<Rightarrow> jsstring list" where
  "trigramsOf (a # b # c # rest) = (a @ str ''_'' @ b @ str ''_'' @ c) # trigramsOf (b # c # rest)"
| "trigramsOf _ = []"

definition buildNgrams :: "jsstring list \<Rightarrow> jsstring list" where
  "buildNgrams ts = bigramsOf ts @ trigramsOf ts"

text \<open>
  The body of the inner loop of \<open>buildSentenceDocs\<close> for one sentence: \<open>None\<close> is
  \<open>continue\<close>. \<open>message.content ?? ''\<close> is the content, a declared string.
\<close>

definition sentenceDoc :: "MessageForSummary \<Rightarrow> real \<Rightarrow> jsstring \<Rightarrow> SentenceDoc option" where
  "sentenceDoc message pos sentence =
     (let normalized = normalizeText sentence
      in if normalized = [] then None
         else
           (let tokens = map stem (tokenize normalized);
                filtered = filter (\<lambda>token. length token \<ge> 2 \<and> length token \<le> 24 \<and> token \<notin> set stopwords) tokens;
                ngrams = buildNgrams filtered;
                combined = filtered @ ngrams
            in if length combined = 0 then None
               else
                 (let tf = foldl (\<lambda>tf token. mapAdd tf token 1) [] combined
                  in Some \<lparr> docId = msgId message, author = authorUsername message,
                            original = trim sentence, normalized = normalized, tokens = filtered,
                            ngrams = ngrams, tf = tf, uniqueTokens = newSet combined,
                            docLength = real (length combined), position = pos,
                            docTimestamp = timestamp message \<rparr>)))"

text \<open>The two loops of \<open>buildSentenceDocs\<close>; the state is \<open>docs\<close> and \<open>position\<close>.\<close>

fun sentenceLoop :: "MessageForSummary \<Rightarrow> jsstring list \<Rightarrow> SentenceDoc list \<times> real \<Rightarrow> SentenceDoc list \<times> real" where
  "sentenceLoop message [] st = st"
| "sentenceLoop message (sentence # rest) (docs, pos) =
     (case sentenceDoc message pos sentence of
        None \<Rightarrow> sentenceLoop message rest (docs, pos)
      | Some doc \<Rightarrow> sentenceLoop message rest (docs @ [doc], pos + 1))"

fun messageLoop :: "MessageForSummary list \<Rightarrow> SentenceDoc list \<times> real \<Rightarrow> SentenceDoc list \<times> real" where
  "messageLoop [] st = st"
| "messageLoop (message # rest) st =
     messageLoop rest (sentenceLoop message (splitSentences (stripFormatting (content message))) st)"

definition buildSentenceDocs :: "MessageForSummary list \<Rightarrow> SentenceDoc list" where
  "buildSentenceDocs msgs = fst (messageLoop msgs ([], 0))"

subsection \<open>Scoring, selection and formatting\<close>

definition buildDocumentFrequency :: "SentenceDoc list \<Rightarrow> (jsstring, real) jsmap" where
  "buildDocumentFrequency docs =
     foldl (\<lambda>df doc. foldl (\<lambda>df token. mapAdd df token 1) df (uniqueTokens doc)) [] docs"

definition buildTopicTokens :: "jsstring list \<Rightarrow> jsstring list \<Rightarrow> jsstring \<Rightarrow> jsstring list" where
  "buildTopicTokens kws bgs topic =
     foldl (\<lambda>tokens entry. foldl (\<lambda>tokens token. setAdd tokens (stem token)) tokens (tokenize (toLowerCase entry)))
           [] (kws @ bgs @ [topic])"

text \<open>
  \<open>DECISION_REGEX.test(s)\<close>: the expression has no \<open>g\<close> flag, so the test keeps no state.
  It is applied to normalized text, which is in lower case.
\<close>

definition decisionVerbs :: "jsstring list" where
  "decisionVerbs = map str [''decide'', ''decided'', ''approve'', ''approved'', ''ship'', ''shipping'',
     ''shipped'', ''blocked'', ''blocker'', ''eta'', ''owner'']"

definition hasDecisionVerb :: "jsstring \<Rightarrow> bool" where
  "hasDecisionVerb s = list_ex (\<lambda>verb. stringIncludes (map asciiLower s) verb) decisionVerbs"

definition computeSentenceScore ::
  "SentenceDoc \<Rightarrow> (jsstring, real) jsmap \<Rightarrow> real \<Rightarrow> jsstring list \<Rightarrow> real \<Rightarrow> real \<Rightarrow> real" where
  "computeSentenceScore doc docFreq totalDocs topicTokens index totalCount =
     (let s0 = foldl (\<lambda>score' (token, count).
                        (let tf' = count / docLength doc;
                             df = (case map_of docFreq token of None \<Rightarrow> 1 | Some v \<Rightarrow> v);
                             idf = ln ((totalDocs + 1) / (df + 1)) + 1;
                             topicBoost = (if token \<in> set topicTokens then 1.2 else 1)
                         in score' + tf' * idf * topicBoost))
                     0 (tf doc);
          s1 = (if index \<le> 2 then s0 + 0.2 else s0);
          hasDecision = hasDecisionVerb (normalized doc);
          s2 = (if hasDecision then (if index \<ge> totalCount - 2 then s1 + 0.6 + 0.3 else s1 + 0.6) else s1);
          s3 = (if list_ex isDigit (original doc) then s2 + 0.2 else s2);
          s4 = (if stringIncludes (normalized doc) (str ''[link]'') then s3 + 0.2 else s3)
      in s4)"

definition maxSimilarity :: "SentenceDoc \<Rightarrow> SentenceDoc list \<Rightarrow> real" where
  "maxSimilarity doc others =
     (if length others = 0 then 0
      else foldl (\<lambda>mx other.
                    (let overlap = real (length (filter (\<lambda>token. token \<in> set (uniqueTokens other)) (uniqueTokens doc)));
                         size' = length (newSet (uniqueTokens doc @ uniqueTokens other));
                         union' = (if size' = 0 then 1 else real size');
                         similarity = overlap / union'
                     in if similarity > mx then similarity else mx))
                 0 others)"

text \<open>
  The \<open>for\<close> loop of \<open>selectByMMR\<close> over the candidates; the state is \<open>bestIndex\<close> and
  \<open>bestScore\<close>, where \<open>None\<close> is \<open>-Infinity\<close>.
\<close>

fun pickBest :: "SentenceDoc list \<Rightarrow> real list \<Rightarrow> nat list \<Rightarrow> nat list \<Rightarrow> nat \<times> real option \<Rightarrow> nat" where
  "pickBest docs scores selected [] (bestIndex, bestScore) = bestIndex"
| "pickBest docs scores selected (candidate # rest) (bestIndex, bestScore) =
     (let relevance = scores ! candidate;
          redundancy = maxSimilarity (docs ! candidate) (map (\<lambda>idx. docs ! idx) selected);
          mmr = 0.72 * relevance - (1 - 0.72) * redundancy
      in if (case bestScore of None \<Rightarrow> True | Some best \<Rightarrow> mmr > best)
         then pickBest docs scores selected rest (candidate, Some mmr)
         else pickBest docs scores selected rest (bestIndex, bestScore))"

text \<open>
  \<open>candidates.splice(candidates.indexOf(x), 1)\<close>: \<open>indexOf\<close> gives \<open>-1\<close> for an absent
  element, and \<open>splice(-1, 1)\<close> removes the last element.
\<close>

definition spliceIndexOf :: "nat \<Rightarrow> nat list \<Rightarrow> nat list" where
  "spliceIndexOf x xs = (if x \<in> set xs then remove1 x xs else butlast xs)"

lemma length_spliceIndexOf: "xs \<noteq> [] \<Longrightarrow> length (spliceIndexOf x xs) < length xs"
  by (cases xs) (auto simp: spliceIndexOf_def length_remove1)

text \<open>The \<open>while\<close> loop of \<open>selectByMMR\<close>.\<close>

function mmrLoop :: "SentenceDoc list \<Rightarrow> real list \<Rightarrow> nat \<Rightarrow> nat list \<Rightarrow> nat list \<Rightarrow> nat list" where
  "mmrLoop docs scores maxItems candidates selected =
     (if length candidates > 0 \<and> length selected < maxItems
      then (let bestIndex = pickBest docs scores selected candidates (hd candidates, None)
            in mmrLoop docs scores maxItems (spliceIndexOf bestIndex candidates) (selected @ [bestIndex]))
      else selected)"
  by pat_completeness auto
termination
  by (relation "measure (\<lambda>(docs, scores, maxItems, candidates, selected). length candidates)")
     (auto intro: length_spliceIndexOf)

declare mmrLoop.simps [simp del]

definition selectByMMR :: "SentenceDoc list \<Rightarrow> real list \<Rightarrow> nat \<Rightarrow> nat list" where
  "selectByMMR docs scores maxItems =
     (let candidates = map fst (sortBy (\<lambda>a b. snd b - snd a) (zip [0 ..< length scores] scores))
      in sortBy (\<lambda>a b. real a - real b) (mmrLoop docs scores maxItems candidates []))"

text \<open>The loop of \<open>enforceCharacterLimit\<close>; the state is \<open>chosen\<close> and \<open>total\<close> (the characters so far).\<close>

fun enforceLoop :: "SentenceDoc list \<Rightarrow> nat \<Rightarrow> nat list \<Rightarrow> SentenceDoc list \<times> nat \<Rightarrow> SentenceDoc list" where
  "enforceLoop docs charLimit [] (chosen, totalChars) = chosen"
| "enforceLoop docs charLimit (index # rest) (chosen, totalChars) =
     (let candidate = docs ! index;
          projected = totalChars + length (original candidate)
      in if length chosen \<ge> 4 then chosen
         else if projected > charLimit \<and> length chosen > 0 then chosen
         else enforceLoop docs charLimit rest (chosen @ [candidate], projected))"

definition enforceCharacterLimit :: "SentenceDoc list \<Rightarrow> nat list \<Rightarrow> nat \<Rightarrow> SentenceDoc list" where
  "enforceCharacterLimit docs selected charLimit = enforceLoop docs charLimit selected ([], 0)"

definition noDiscussion :: jsstring where
  "noDiscussion = str ''No notable discussion captured in this window.''"

text \<open>\<open>bullets.join('\n')\<close>\<close>

fun joinLines :: "jsstring list \<Rightarrow> jsstring" where
  "joinLines [] = []"
| "joinLines [b] = b"
| "joinLines (b # rest) = b @ [0x0A] @ joinLines rest"

text \<open>The bullet is U+2022 and the ellipsis U+2026.\<close>

definition formatBullet :: "jsstring \<Rightarrow> jsstring \<Rightarrow> jsstring" where
  "formatBullet sentence author' =
     (let trimmed = trim (collapseWhitespace sentence);
          preview = (if length trimmed > 180 then take 177 trimmed @ [0x2026] else trimmed)
      in [0x2022, 0x20] @ author' @ str '': '' @ preview)"

definition summaryOf :: "jsstring list \<Rightarrow> jsstring" where
  "summaryOf bullets = (if joinLines bullets = [] then noDiscussion else joinLines bullets)"

definition emptyResult :: ExtractiveSummaryResult where
  "emptyResult = \<lparr> summary = noDiscussion, tokensUsed = \<lparr> inputTokens = 0, outputTokens = 0 \<rparr>,
                   cost = 0, selectedIds = [] \<rparr>"

definition fallback :: "MessageForSummary list \<Rightarrow> ExtractiveSummaryResult" where
  "fallback msgs =
     (let top = take (min 3 (length msgs)) msgs;
          bullets = map (\<lambda>msg. formatBullet (content msg) (authorUsername msg)) top
      in \<lparr> summary = summaryOf bullets, tokensUsed = \<lparr> inputTokens = 0, outputTokens = 0 \<rparr>,
           cost = 0, selectedIds = map msgId top \<rparr>)"

definition formatSummary :: "SentenceDoc list \<Rightarrow> ExtractiveSummaryResult" where
  "formatSummary sentences =
     (let bullets = map (\<lambda>sentence. formatBullet (original sentence) (author sentence)) sentences
      in \<lparr> summary = summaryOf bullets, tokensUsed = \<lparr> inputTokens = 0, outputTokens = 0 \<rparr>,
           cost = 0, selectedIds = map docId sentences \<rparr>)"

text \<open>
  \<open>summarize\<close>. The first argument is \<open>topicService.find\<close> on the topic taxonomy of the
  moment, the one thing the function reads besides its arguments.
\<close>

definition sentenceScores :: "(jsstring \<Rightarrow> Topic option) \<Rightarrow> SentenceDoc list \<Rightarrow> jsstring \<Rightarrow> real list" where
  "sentenceScores find' sentences topic =
     (let topicInfo = find' topic;
          topicTokens = buildTopicTokens (case topicInfo of None \<Rightarrow> [] | Some t \<Rightarrow> topicKeywords t)
                                         (case topicInfo of None \<Rightarrow> [] | Some t \<Rightarrow> topicBigrams t) topic;
          docFreq = buildDocumentFrequency sentences
      in map (\<lambda>(index, sentence).
               computeSentenceScore sentence docFreq (real (length sentences)) topicTokens (real index)
                 (real (length sentences)))
             (zip [0 ..< length sentences] sentences))"

definition summarize :: "(jsstring \<Rightarrow> Topic option) \<Rightarrow> MessageForSummary list \<Rightarrow> jsstring \<Rightarrow> ExtractiveSummaryResult" where
  "summarize find' msgs topic =
     (if length msgs = 0 then emptyResult
      else
        (let sentences = buildSentenceDocs msgs
         in if length sentences = 0 then emptyResult
            else
              (let scores = sentenceScores find' sentences topic;
                   selected = selectByMMR sentences scores 4
               in if length selected = 0 then fallback msgs
                  else (let capped = enforceCharacterLimit sentences selected 380
                        in formatSummary capped))))"

subsection \<open>Facts about the selection\<close>

lemma pickBest_mem: "pickBest docs scores sel cands (b, s) \<in> insert b (set cands)"
proof (induction cands arbitrary: b s)
  case Nil
  then show ?case by simp
next
  case (Cons c cands)
  have "pickBest docs scores sel cands (c, s') \<in> insert b (set (c # cands))" for s'
    using Cons.IH [of c s'] by auto
  moreover have "pickBest docs scores sel cands (b, s) \<in> insert b (set (c # cands))"
    using Cons.IH [of b s] by auto
  ultimately show ?case by (simp add: Let_def)
qed

lemma pickBest_hd_mem:
  "cands \<noteq> [] \<Longrightarrow> pickBest docs scores sel cands (hd cands, None) \<in> set cands"
  using pickBest_mem [of docs scores sel cands "hd cands" None] by (cases cands) auto

lemma set_spliceIndexOf: "set (spliceIndexOf x xs) \<subseteq> set xs"
proof (cases "x \<in> set xs")
  case True
  then show ?thesis using set_remove1_subset [of x xs] by (simp add: spliceIndexOf_def)
next
  case False
  then show ?thesis by (auto simp: spliceIndexOf_def dest: in_set_butlastD)
qed

lemma distinct_spliceIndexOf: "distinct xs \<Longrightarrow> distinct (spliceIndexOf x xs)"
  by (simp add: spliceIndexOf_def distinct_butlast)

lemma spliceIndexOf_removes: "distinct xs \<Longrightarrow> x \<in> set xs \<Longrightarrow> x \<notin> set (spliceIndexOf x xs)"
  by (simp add: spliceIndexOf_def)

lemma length_spliceIndexOf_eq: "xs \<noteq> [] \<Longrightarrow> length (spliceIndexOf x xs) = length xs - 1"
  by (simp add: spliceIndexOf_def length_remove1)

lemma mmrLoop_distinct_subset:
  "distinct cands \<Longrightarrow> distinct sel \<Longrightarrow> set cands \<inter> set sel = {} \<Longrightarrow>
   distinct (mmrLoop docs scores maxItems cands sel)
   \<and> set (mmrLoop docs scores maxItems cands sel) \<subseteq> set cands \<union> set sel"
proof (induction docs scores maxItems cands sel rule: mmrLoop.induct)
  case (1 docs scores maxItems cands sel)
  show ?case
  proof (cases "length cands > 0 \<and> length sel < maxItems")
    case False
    then have "mmrLoop docs scores maxItems cands sel = sel"
      by (subst mmrLoop.simps) auto
    with "1.prems" show ?thesis by simp
  next
    case True
    define best where "best = pickBest docs scores sel cands (hd cands, None)"
    from True have ne: "cands \<noteq> []" by auto
    have bm: "best \<in> set cands" unfolding best_def by (rule pickBest_hd_mem [OF ne])
    have step: "mmrLoop docs scores maxItems cands sel
                  = mmrLoop docs scores maxItems (spliceIndexOf best cands) (sel @ [best])"
      using True by (subst mmrLoop.simps) (simp add: Let_def best_def)
    have d1: "distinct (spliceIndexOf best cands)" using "1.prems"(1) by (rule distinct_spliceIndexOf)
    have bs: "best \<notin> set sel" using bm "1.prems"(3) by auto
    have d2: "distinct (sel @ [best])" using "1.prems"(2) bs by simp
    have sub: "set (spliceIndexOf best cands) \<subseteq> set cands" by (rule set_spliceIndexOf)
    have nb: "best \<notin> set (spliceIndexOf best cands)"
      using "1.prems"(1) bm by (rule spliceIndexOf_removes)
    have d3: "set (spliceIndexOf best cands) \<inter> set (sel @ [best]) = {}"
      using sub nb "1.prems"(3) by auto
    from "1.IH" [OF True best_def d1 d2 d3]
    have "distinct (mmrLoop docs scores maxItems (spliceIndexOf best cands) (sel @ [best]))"
      and "set (mmrLoop docs scores maxItems (spliceIndexOf best cands) (sel @ [best]))
             \<subseteq> set (spliceIndexOf best cands) \<union> set (sel @ [best])"
      by simp_all
    with sub bm show ?thesis unfolding step by auto
  qed
qed

lemma mmrLoop_length:
  "length sel \<le> maxItems \<Longrightarrow>
   length (mmrLoop docs scores maxItems cands sel) = min maxItems (length sel + length cands)"
proof (induction docs scores maxItems cands sel rule: mmrLoop.induct)
  case (1 docs scores maxItems cands sel)
  show ?case
  proof (cases "length cands > 0 \<and> length sel < maxItems")
    case False
    then have "mmrLoop docs scores maxItems cands sel = sel"
      by (subst mmrLoop.simps) auto
    with False "1.prems" show ?thesis by auto
  next
    case True
    define best where "best = pickBest docs scores sel cands (hd cands, None)"
    from True have ne: "cands \<noteq> []" by auto
    have step: "mmrLoop docs scores maxItems cands sel
                  = mmrLoop docs scores maxItems (spliceIndexOf best cands) (sel @ [best])"
      using True by (subst mmrLoop.simps) (simp add: Let_def best_def)
    have l: "length (sel @ [best]) \<le> maxItems" using True by simp
    from "1.IH" [OF True best_def l] length_spliceIndexOf_eq [OF ne, of best] True
    show ?thesis unfolding step by simp
  qed
qed

lemma sortBy_nat_sort: "sortBy (\<lambda>a b. real a - real b) xs = sort xs"
  by (rule sortBy_sort_key) simp

lemma candidates_set:
  "set (map fst (sortBy cmp (zip [0 ..< length scores] scores))) = {0 ..< length scores}"
proof -
  have "set (map fst (sortBy cmp (zip [0 ..< length scores] scores)))
          = set (map fst (zip [0 ..< length scores] scores))"
    by (simp only: set_map set_sortBy)
  also have "map fst (zip [0 ..< length scores] scores) = [0 ..< length scores]" by simp
  finally show ?thesis by simp
qed

lemma candidates_distinct:
  "distinct (map fst (sortBy cmp (zip [0 ..< length scores] scores)))"
proof -
  have "mset (map fst (sortBy cmp (zip [0 ..< length scores] scores)))
          = mset (map fst (zip [0 ..< length scores] scores))"
    by (simp only: mset_map mset_sortBy)
  also have "\<dots> = mset [0 ..< length scores]" by simp
  finally show ?thesis by (metis distinct_upt mset_eq_imp_distinct_iff)
qed

lemma candidates_length:
  "length (map fst (sortBy cmp (zip [0 ..< length scores] scores))) = length scores"
  by (simp add: length_sortBy)

lemma selectByMMR_props:
  "sorted_wrt (<) (selectByMMR docs scores maxItems)
   \<and> set (selectByMMR docs scores maxItems) \<subseteq> {0 ..< length scores}
   \<and> length (selectByMMR docs scores maxItems) = min maxItems (length scores)"
proof -
  let ?cands = "map fst (sortBy (\<lambda>a b. snd b - snd a) (zip [0 ..< length scores] scores))"
  let ?loop = "mmrLoop docs scores maxItems ?cands []"
  have sel: "selectByMMR docs scores maxItems = sort ?loop"
    by (simp add: selectByMMR_def Let_def sortBy_nat_sort)
  have "distinct ?loop \<and> set ?loop \<subseteq> set ?cands \<union> set []"
    by (rule mmrLoop_distinct_subset) (simp_all add: candidates_distinct)
  then have d: "distinct ?loop" and s: "set ?loop \<subseteq> {0 ..< length scores}"
    unfolding candidates_set by simp_all
  have l: "length ?loop = min maxItems (length scores)"
    using mmrLoop_length [of "[]" maxItems docs scores ?cands] by (simp add: length_sortBy)
  have "sorted_wrt (<) (sort ?loop)"
    using d by (simp add: strict_sorted_iff)
  with s l show ?thesis unfolding sel by simp
qed

lemma sorted_wrt_less_full:
  assumes "sorted_wrt (<) xs" and "set xs \<subseteq> {0 ..< n}" and "length xs = n"
  shows "xs = [0 ..< n]"
proof -
  from assms(1) have s: "sorted xs" and d: "distinct xs" by (simp_all add: strict_sorted_iff)
  from d assms(3) have "card (set xs) = card {0 ..< n}" by (simp add: distinct_card)
  with assms(2) have "set xs = {0 ..< n}" by (intro card_subset_eq) simp_all
  then have "set xs = set [0 ..< n]" by simp
  with s d show ?thesis by (intro sorted_distinct_set_unique) simp_all
qed

lemma selectByMMR_all:
  "length scores \<le> maxItems \<Longrightarrow> selectByMMR docs scores maxItems = [0 ..< length scores]"
  using selectByMMR_props [of docs scores maxItems] by (intro sorted_wrt_less_full) simp_all

text \<open>The state of \<open>enforceCharacterLimit\<close> stays within the two limits.\<close>

definition withinLimits :: "nat \<Rightarrow> SentenceDoc list \<Rightarrow> bool" where
  "withinLimits charLimit chosen =
     (length chosen \<le> 4 \<and> ((\<Sum>d\<leftarrow>chosen. length (original d)) \<le> charLimit \<or> length chosen = 1))"

lemma enforceLoop_prefix:
  "\<exists>k. enforceLoop docs charLimit sel (chosen, t) = chosen @ map (\<lambda>i. docs ! i) (take k sel)"
proof (induction sel arbitrary: chosen t)
  case Nil
  then show ?case by simp
next
  case (Cons i sel)
  show ?case
  proof (cases "length chosen \<ge> 4 \<or> (t + length (original (docs ! i)) > charLimit \<and> length chosen > 0)")
    case True
    then have "enforceLoop docs charLimit (i # sel) (chosen, t) = chosen @ map (\<lambda>i. docs ! i) (take 0 (i # sel))"
      by (auto simp: Let_def)
    then show ?thesis by blast
  next
    case False
    from Cons.IH [of "chosen @ [docs ! i]" "t + length (original (docs ! i))"]
    obtain k where "enforceLoop docs charLimit sel (chosen @ [docs ! i], t + length (original (docs ! i)))
                      = (chosen @ [docs ! i]) @ map (\<lambda>i. docs ! i) (take k sel)" by blast
    with False have "enforceLoop docs charLimit (i # sel) (chosen, t) = chosen @ map (\<lambda>i. docs ! i) (take (Suc k) (i # sel))"
      by (auto simp: Let_def)
    then show ?thesis by blast
  qed
qed

lemma enforceLoop_withinLimits:
  "withinLimits charLimit chosen \<or> chosen = [] \<Longrightarrow> t = (\<Sum>d\<leftarrow>chosen. length (original d)) \<Longrightarrow>
   withinLimits charLimit (enforceLoop docs charLimit sel (chosen, t))"
proof (induction sel arbitrary: chosen t)
  case Nil
  then show ?case by (auto simp: withinLimits_def)
next
  case (Cons i sel)
  from Cons.prems(1) have w: "withinLimits charLimit chosen" by (auto simp: withinLimits_def)
  show ?case
  proof (cases "length chosen \<ge> 4 \<or> (t + length (original (docs ! i)) > charLimit \<and> length chosen > 0)")
    case True
    then have "enforceLoop docs charLimit (i # sel) (chosen, t) = chosen" by (auto simp: Let_def)
    with w show ?thesis by simp
  next
    case False
    then have e: "enforceLoop docs charLimit (i # sel) (chosen, t)
                    = enforceLoop docs charLimit sel (chosen @ [docs ! i], t + length (original (docs ! i)))"
      by (auto simp: Let_def)
    have "withinLimits charLimit (chosen @ [docs ! i])"
      using False Cons.prems(2) by (auto simp: withinLimits_def)
    then have "withinLimits charLimit (chosen @ [docs ! i]) \<or> chosen @ [docs ! i] = []" by simp
    moreover have "t + length (original (docs ! i)) = (\<Sum>d\<leftarrow>chosen @ [docs ! i]. length (original d))"
      using Cons.prems(2) by simp
    ultimately show ?thesis unfolding e by (rule Cons.IH)
  qed
qed

lemma enforceLoop_nonempty: "sel \<noteq> [] \<Longrightarrow> enforceLoop docs charLimit sel ([], 0) \<noteq> []"
proof (cases sel)
  case Nil
  moreover assume "sel \<noteq> []"
  ultimately show ?thesis by simp
next
  case (Cons i rest)
  obtain k where "enforceLoop docs charLimit rest ([docs ! i], length (original (docs ! i)))
                    = [docs ! i] @ map (\<lambda>i. docs ! i) (take k rest)"
    using enforceLoop_prefix [of docs charLimit rest "[docs ! i]" "length (original (docs ! i))"] by blast
  with Cons show ?thesis by (simp add: Let_def)
qed

subsection \<open>The paths of \<open>summarize\<close>\<close>

lemma buildSentenceDocs_Nil: "buildSentenceDocs [] = []"
  by (simp add: buildSentenceDocs_def)

lemma length_sentenceScores: "length (sentenceScores find' sentences topic) = length sentences"
  by (simp add: sentenceScores_def Let_def)

lemma summarize_no_sentences:
  "buildSentenceDocs msgs = [] \<Longrightarrow> summarize find' msgs topic = emptyResult"
  by (simp add: summarize_def Let_def)

lemma selectByMMR_nonempty:
  assumes "sentences \<noteq> []"
  shows "selectByMMR sentences (sentenceScores find' sentences topic) 4 \<noteq> []"
proof -
  have "length (selectByMMR sentences (sentenceScores find' sentences topic) 4) = min 4 (length sentences)"
    using selectByMMR_props [of sentences "sentenceScores find' sentences topic" 4]
    by (simp add: length_sentenceScores)
  with assms show ?thesis by (cases sentences) auto
qed

lemma summarize_selection:
  assumes "buildSentenceDocs msgs \<noteq> []"
  shows "summarize find' msgs topic =
           formatSummary (enforceCharacterLimit (buildSentenceDocs msgs)
             (selectByMMR (buildSentenceDocs msgs) (sentenceScores find' (buildSentenceDocs msgs) topic) 4) 380)"
proof -
  from assms have "msgs \<noteq> []" using buildSentenceDocs_Nil by auto
  with assms selectByMMR_nonempty [OF assms, of find' topic]
  show ?thesis by (simp add: summarize_def Let_def)
qed

lemma formatSummary_Nil: "formatSummary [] = emptyResult"
  by (simp add: formatSummary_def emptyResult_def summaryOf_def)

text \<open>The sentences that \<open>summarize\<close> formats: none when no sentence document survives.\<close>

definition chosenSentences :: "(jsstring \<Rightarrow> Topic option) \<Rightarrow> MessageForSummary list \<Rightarrow> jsstring \<Rightarrow> SentenceDoc list" where
  "chosenSentences find' msgs topic =
     (let sentences = buildSentenceDocs msgs
      in enforceCharacterLimit sentences
           (selectByMMR sentences (sentenceScores find' sentences topic) 4) 380)"

lemma enforceCharacterLimit_Nil: "enforceCharacterLimit docs [] charLimit = []"
  by (simp add: enforceCharacterLimit_def)

lemma selectByMMR_Nil: "selectByMMR [] [] maxItems = []"
  using selectByMMR_props [of "[]" "[]" maxItems] by simp

lemma summarize_chosen: "summarize find' msgs topic = formatSummary (chosenSentences find' msgs topic)"
proof (cases "buildSentenceDocs msgs = []")
  case True
  then have "chosenSentences find' msgs topic = []"
    by (simp add: chosenSentences_def Let_def sentenceScores_def selectByMMR_Nil enforceCharacterLimit_Nil)
  with True show ?thesis by (simp add: summarize_no_sentences formatSummary_Nil)
next
  case False
  then show ?thesis by (simp add: summarize_selection chosenSentences_def Let_def)
qed

lemma chosenSentences_withinLimits: "withinLimits 380 (chosenSentences find' msgs topic)"
  unfolding chosenSentences_def Let_def enforceCharacterLimit_def
  by (rule enforceLoop_withinLimits) simp_all

subsection \<open>Lines of the summary\<close>

definition newlines :: "jsstring \<Rightarrow> nat" where
  "newlines s = length (filter (\<lambda>c. c = 0x0A) s)"

lemma newlines_Nil: "newlines [] = 0"
  by (simp add: newlines_def)

lemma newlines_Cons: "newlines (c # s) = (if c = 0x0A then 1 else 0) + newlines s"
  by (simp add: newlines_def)

lemma newlines_zero: "0x0A \<notin> set s \<Longrightarrow> newlines s = 0"
  by (induction s) (simp_all add: newlines_Nil newlines_Cons)

lemma collapseWhitespace_no_newline: "0x0A \<notin> set (collapseWhitespace s)"
proof (induction s rule: collapseWhitespace.induct)
  case 1
  then show ?case by simp
next
  case (2 c cs)
  have "isWhiteSpace 0x0A" by (simp add: isWhiteSpace_def)
  then have "\<not> isWhiteSpace c \<Longrightarrow> c \<noteq> 0x0A" by auto
  with 2 show ?case by auto
qed

lemma set_trim: "set (trim s) \<subseteq> set s"
proof -
  have "set (trim s) = set (dropWhile isWhiteSpace (rev (dropWhile isWhiteSpace s)))"
    by (simp add: trim_def)
  also have "\<dots> \<subseteq> set (rev (dropWhile isWhiteSpace s))" by (rule set_dropWhileD [THEN subsetI])
  also have "\<dots> \<subseteq> set s" using set_dropWhileD [of _ isWhiteSpace s] by auto
  finally show ?thesis .
qed

lemma formatBullet_no_newline:
  assumes "0x0A \<notin> set author'"
  shows "newlines (formatBullet sentence author') = 0"
proof -
  let ?t = "trim (collapseWhitespace sentence)"
  have t: "0x0A \<notin> set ?t" using set_trim [of "collapseWhitespace sentence"] collapseWhitespace_no_newline [of sentence] by auto
  then have "0x0A \<notin> set (take 177 ?t)" by (auto dest: in_set_takeD)
  with t assms have "0x0A \<notin> set (formatBullet sentence author')"
    by (simp add: formatBullet_def Let_def str_def)
  then show ?thesis by (rule newlines_zero)
qed

lemma newlines_append: "newlines (a @ b) = newlines a + newlines b"
  by (simp add: newlines_def)

lemma newlines_joinLines:
  "\<forall>b \<in> set bullets. newlines b = 0 \<Longrightarrow> newlines (joinLines bullets) = length bullets - 1"
proof (induction bullets rule: joinLines.induct)
  case 1
  then show ?case by (simp add: newlines_Nil)
next
  case (2 b)
  then show ?case by simp
next
  case (3 b v va)
  then have "newlines (joinLines (v # va)) = length (v # va) - 1" by simp
  moreover have "newlines b = 0" using 3 by simp
  ultimately show ?case by (simp add: newlines_append newlines_Cons)
qed

lemma newlines_noDiscussion: "newlines noDiscussion = 0"
  by (simp add: newlines_def noDiscussion_def str_def)

lemma newlines_summaryOf:
  assumes "\<forall>b \<in> set bullets. newlines b = 0"
  shows "newlines (summaryOf bullets) \<le> length bullets - 1"
  using newlines_joinLines [OF assms] by (simp add: summaryOf_def newlines_noDiscussion)

subsection \<open>Facts about the sentence documents\<close>

lemma sentenceDoc_fields:
  "sentenceDoc m pos s = Some d \<Longrightarrow>
   docId d = msgId m \<and> author d = authorUsername m \<and> position d = pos \<and> original d = trim s"
  by (auto simp: sentenceDoc_def Let_def split: if_splits)

text \<open>
  The state of the two loops: the position counter is the number of documents, every
  document has its index as position, and every document carries the id and the author
  of a message of \<open>M\<close>.
\<close>

definition docsInv :: "MessageForSummary set \<Rightarrow> SentenceDoc list \<times> real \<Rightarrow> bool" where
  "docsInv M st =
     (case st of (docs, pos) \<Rightarrow>
        pos = real (length docs)
        \<and> (\<forall>i < length docs. position (docs ! i) = real i)
        \<and> (\<forall>d \<in> set docs. \<exists>m \<in> M. docId d = msgId m \<and> author d = authorUsername m))"

lemma docsInv_push:
  assumes inv: "docsInv M (docs, pos)" and m: "m \<in> M" and d: "sentenceDoc m pos s = Some d"
  shows "docsInv M (docs @ [d], pos + 1)"
proof -
  from sentenceDoc_fields [OF d]
  have f: "docId d = msgId m" "author d = authorUsername m" "position d = pos" by simp_all
  from inv have p: "pos = real (length docs)"
    and q: "\<forall>i < length docs. position (docs ! i) = real i"
    and r: "\<forall>d \<in> set docs. \<exists>m \<in> M. docId d = msgId m \<and> author d = authorUsername m"
    by (simp_all add: docsInv_def)
  have "position ((docs @ [d]) ! i) = real i" if "i < length (docs @ [d])" for i
  proof (cases "i < length docs")
    case True
    with q show ?thesis by (simp add: nth_append)
  next
    case False
    with that have "i = length docs" by simp
    with f(3) p show ?thesis by simp
  qed
  moreover have "\<exists>m \<in> M. docId d' = msgId m \<and> author d' = authorUsername m" if "d' \<in> set (docs @ [d])" for d'
  proof (cases "d' = d")
    case True
    with f m show ?thesis by blast
  next
    case False
    with that have "d' \<in> set docs" by simp
    with r show ?thesis by blast
  qed
  ultimately show ?thesis using p by (simp add: docsInv_def)
qed

lemma sentenceLoop_inv:
  "docsInv M st \<Longrightarrow> m \<in> M \<Longrightarrow> docsInv M (sentenceLoop m ss st)"
proof (induction ss arbitrary: st)
  case Nil
  then show ?case by simp
next
  case (Cons s ss)
  obtain docs pos where st: "st = (docs, pos)" by (cases st)
  show ?case
  proof (cases "sentenceDoc m pos s")
    case None
    with Cons st show ?thesis by simp
  next
    case (Some d)
    from Cons.prems st have "docsInv M (docs, pos)" by simp
    from docsInv_push [OF this Cons.prems(2) Some] have "docsInv M (docs @ [d], pos + 1)" .
    from Cons.IH [OF this Cons.prems(2)] Some st show ?thesis by simp
  qed
qed

lemma messageLoop_inv:
  "docsInv M st \<Longrightarrow> set msgs \<subseteq> M \<Longrightarrow> docsInv M (messageLoop msgs st)"
proof (induction msgs arbitrary: st)
  case Nil
  then show ?case by simp
next
  case (Cons m msgs)
  from Cons.prems(2) have "m \<in> M" and sub: "set msgs \<subseteq> M" by simp_all
  from sentenceLoop_inv [OF Cons.prems(1) this(1)]
  have "docsInv M (sentenceLoop m (splitSentences (stripFormatting (content m))) st)" .
  from Cons.IH [OF this sub] show ?case by simp
qed

lemma buildSentenceDocs_inv:
  "(\<forall>i < length (buildSentenceDocs msgs). position (buildSentenceDocs msgs ! i) = real i)
   \<and> (\<forall>d \<in> set (buildSentenceDocs msgs). \<exists>m \<in> set msgs. docId d = msgId m \<and> author d = authorUsername m)"
proof -
  have "docsInv (set msgs) ([], 0)" by (simp add: docsInv_def)
  then have "docsInv (set msgs) (messageLoop msgs ([], 0))" by (rule messageLoop_inv) simp
  then show ?thesis
    by (cases "messageLoop msgs ([], 0)") (simp add: docsInv_def buildSentenceDocs_def)
qed

text \<open>The ids of the documents follow the messages: each message's id, once for each of its documents.\<close>

lemma sentenceLoop_ids:
  "\<exists>n. map docId (fst (sentenceLoop m ss (docs, pos))) = map docId docs @ replicate n (msgId m)"
proof (induction ss arbitrary: docs pos)
  case Nil
  have "map docId (fst (sentenceLoop m [] (docs, pos))) = map docId docs @ replicate 0 (msgId m)" by simp
  then show ?case by blast
next
  case (Cons s ss)
  show ?case
  proof (cases "sentenceDoc m pos s")
    case None
    with Cons.IH [of docs pos] show ?thesis by simp
  next
    case (Some d)
    from sentenceDoc_fields [OF Some] have id: "docId d = msgId m" by simp
    from Cons.IH [of "docs @ [d]" "pos + 1"] obtain n where
      "map docId (fst (sentenceLoop m ss (docs @ [d], pos + 1))) = map docId (docs @ [d]) @ replicate n (msgId m)"
      by blast
    then have "map docId (fst (sentenceLoop m (s # ss) (docs, pos))) = map docId docs @ replicate (Suc n) (msgId m)"
      using Some id by simp
    then show ?thesis by blast
  qed
qed

lemma messageLoop_ids:
  "\<exists>counts. length counts = length msgs
     \<and> map docId (fst (messageLoop msgs (docs, pos)))
         = map docId docs @ concat (map2 (\<lambda>m n. replicate n (msgId m)) msgs counts)"
proof (induction msgs arbitrary: docs pos)
  case Nil
  have "length ([] :: nat list) = length ([] :: MessageForSummary list)
        \<and> map docId (fst (messageLoop [] (docs, pos))) = map docId docs @ concat (map2 (\<lambda>m n. replicate n (msgId m)) [] [])"
    by simp
  then show ?case by blast
next
  case (Cons m msgs)
  let ?st = "sentenceLoop m (splitSentences (stripFormatting (content m))) (docs, pos)"
  obtain docs' pos' where st: "?st = (docs', pos')" by (cases ?st)
  from sentenceLoop_ids [of m "splitSentences (stripFormatting (content m))" docs pos] st
  obtain n where n: "map docId docs' = map docId docs @ replicate n (msgId m)" by auto
  from Cons.IH [of docs' pos'] obtain counts where
    c: "length counts = length msgs"
    and ids: "map docId (fst (messageLoop msgs (docs', pos')))
                = map docId docs' @ concat (map2 (\<lambda>m n. replicate n (msgId m)) msgs counts)"
    by blast
  have "length (n # counts) = length (m # msgs)" using c by simp
  moreover have "map docId (fst (messageLoop (m # msgs) (docs, pos)))
      = map docId docs @ concat (map2 (\<lambda>m n. replicate n (msgId m)) (m # msgs) (n # counts))"
    using st ids n by simp
  ultimately show ?case by blast
qed

lemma buildSentenceDocs_ids:
  "\<exists>counts. length counts = length msgs
     \<and> map docId (buildSentenceDocs msgs) = concat (map2 (\<lambda>m n. replicate n (msgId m)) msgs counts)"
  using messageLoop_ids [of msgs "[]" 0] by (simp add: buildSentenceDocs_def)

text \<open>The chosen sentences are documents at increasing indices.\<close>

lemma chosenSentences_indices:
  "\<exists>idxs. sorted_wrt (<) idxs \<and> set idxs \<subseteq> {0 ..< length (buildSentenceDocs msgs)}
     \<and> chosenSentences find' msgs topic = map (\<lambda>i. buildSentenceDocs msgs ! i) idxs"
proof -
  let ?docs = "buildSentenceDocs msgs"
  let ?sel = "selectByMMR ?docs (sentenceScores find' ?docs topic) 4"
  from selectByMMR_props [of ?docs "sentenceScores find' ?docs topic" 4]
  have s: "sorted_wrt (<) ?sel" and r: "set ?sel \<subseteq> {0 ..< length ?docs}"
    by (simp_all add: length_sentenceScores)
  obtain k where k: "enforceLoop ?docs 380 ?sel ([], 0) = [] @ map (\<lambda>i. ?docs ! i) (take k ?sel)"
    using enforceLoop_prefix [of ?docs 380 ?sel "[]" 0] by blast
  have "sorted_wrt (<) (take k ?sel)" using s by (rule sorted_wrt_take)
  moreover have "set (take k ?sel) \<subseteq> {0 ..< length ?docs}"
    using r set_take_subset [of k ?sel] by blast
  moreover have "chosenSentences find' msgs topic = map (\<lambda>i. ?docs ! i) (take k ?sel)"
    using k by (simp add: chosenSentences_def Let_def enforceCharacterLimit_def)
  ultimately show ?thesis by blast
qed

lemma chosenSentences_subset: "set (chosenSentences find' msgs topic) \<subseteq> set (buildSentenceDocs msgs)"
proof -
  obtain idxs where i: "set idxs \<subseteq> {0 ..< length (buildSentenceDocs msgs)}"
    and c: "chosenSentences find' msgs topic = map (\<lambda>i. buildSentenceDocs msgs ! i) idxs"
    using chosenSentences_indices [of msgs find' topic] by blast
  show ?thesis unfolding c using i by auto
qed

lemma chosenSentences_nonempty:
  assumes "buildSentenceDocs msgs \<noteq> []"
  shows "chosenSentences find' msgs topic \<noteq> []"
  unfolding chosenSentences_def Let_def enforceCharacterLimit_def
  by (rule enforceLoop_nonempty) (rule selectByMMR_nonempty [OF assms])

subsection \<open>Example messages\<close>

definition exampleMessage :: "string \<Rightarrow> string \<Rightarrow> string \<Rightarrow> MessageForSummary" where
  "exampleMessage i a c =
     \<lparr> msgId = str i, authorUsername = str a, content = str c, timestamp = 0,
       url = str ''https://discord.com'' \<rparr>"

text \<open>An empty topic taxonomy: \<open>topicService.find\<close> finds nothing.\<close>

definition emptyTaxonomy :: "jsstring \<Rightarrow> Topic option" where
  "emptyTaxonomy topic = None"

text \<open>A message of stop words only, and a message of two sentences.\<close>

definition stopwordMessage :: MessageForSummary where
  "stopwordMessage = exampleMessage ''m1'' ''sam'' ''The.''"

definition twoSentenceMessage :: MessageForSummary where
  "twoSentenceMessage = exampleMessage ''m1'' ''maya'' ''Grid approved. Budget sent.''"

lemma stopwordMessage_docs: "buildSentenceDocs [stopwordMessage] = []"
  by code_simp

lemma stopwordMessage_fallback:
  "fallback [stopwordMessage] =
     \<lparr> summary = [0x2022, 0x20] @ str ''sam: The.'',
       tokensUsed = \<lparr> inputTokens = 0, outputTokens = 0 \<rparr>, cost = 0, selectedIds = [str ''m1''] \<rparr>"
  by code_simp

lemma twoSentenceMessage_docs:
  "map (\<lambda>d. (docId d, length (original d))) (buildSentenceDocs [twoSentenceMessage])
     = [(str ''m1'', 14), (str ''m1'', 12)]"
  by code_simp

subsection \<open>Limits of the summary\<close>

lemma chosenSentences_authors:
  assumes "\<forall>m \<in> set msgs. 0x0A \<notin> set (authorUsername m)"
  shows "\<forall>d \<in> set (chosenSentences find' msgs topic). 0x0A \<notin> set (author d)"
proof
  fix d assume "d \<in> set (chosenSentences find' msgs topic)"
  then have "d \<in> set (buildSentenceDocs msgs)" using chosenSentences_subset by blast
  with buildSentenceDocs_inv [of msgs] obtain m where "m \<in> set msgs" and "author d = authorUsername m"
    by blast
  with assms show "0x0A \<notin> set (author d)" by simp
qed

lemma summary_formatSummary:
  "summary (formatSummary sentences) = summaryOf (map (\<lambda>d. formatBullet (original d) (author d)) sentences)"
  by (simp add: formatSummary_def Let_def)

lemma selectedIds_formatSummary: "selectedIds (formatSummary sentences) = map docId sentences"
  by (simp add: formatSummary_def Let_def)

lemma summarize_newlines:
  assumes "\<forall>m \<in> set msgs. 0x0A \<notin> set (authorUsername m)"
  shows "newlines (summary (summarize find' msgs topic)) \<le> 3"
proof -
  let ?chosen = "chosenSentences find' msgs topic"
  let ?bullets = "map (\<lambda>d. formatBullet (original d) (author d)) ?chosen"
  have "\<forall>b \<in> set ?bullets. newlines b = 0"
    using chosenSentences_authors [OF assms, of find' topic] by (auto simp: formatBullet_no_newline)
  then have "newlines (summaryOf ?bullets) \<le> length ?bullets - 1" by (rule newlines_summaryOf)
  moreover have "length ?bullets \<le> 4"
    using chosenSentences_withinLimits [of find' msgs topic] by (simp add: withinLimits_def)
  ultimately show ?thesis by (simp add: summarize_chosen summary_formatSummary)
qed

text \<open>
  Claim C4. The summary is made of the bullets of the chosen sentences, at most 4 of
  them, and the lengths of their original texts add up to at most 380, unless a single
  sentence was chosen (the first one is never rejected for its length). When no author
  name contains a line feed, the summary has at most 3 line feeds, that is at most 4 lines.
\<close>

theorem summarize_limits:
  "summary (summarize find' msgs topic)
     = summaryOf (map (\<lambda>d. formatBullet (original d) (author d)) (chosenSentences find' msgs topic))
   \<and> selectedIds (summarize find' msgs topic) = map docId (chosenSentences find' msgs topic)
   \<and> length (chosenSentences find' msgs topic) \<le> 4
   \<and> ((\<Sum>d\<leftarrow>chosenSentences find' msgs topic. length (original d)) \<le> 380
        \<or> length (chosenSentences find' msgs topic) = 1)
   \<and> ((\<forall>m \<in> set msgs. 0x0A \<notin> set (authorUsername m))
        \<longrightarrow> newlines (summary (summarize find' msgs topic)) \<le> 3)"
  using chosenSentences_withinLimits [of find' msgs topic] summarize_newlines [of msgs find' topic]
  by (simp add: summarize_chosen summary_formatSummary selectedIds_formatSummary withinLimits_def)

theorem summarize_limits_witness:
  "0x0A \<notin> set (authorUsername twoSentenceMessage)
   \<and> newlines (summary (summarize emptyTaxonomy [twoSentenceMessage] (str ''energy''))) \<le> 3
   \<and> length (chosenSentences emptyTaxonomy [twoSentenceMessage] (str ''energy'')) \<le> 4"
proof -
  have a: "0x0A \<notin> set (authorUsername twoSentenceMessage)"
    by (simp add: twoSentenceMessage_def exampleMessage_def str_def)
  then have h: "\<forall>m \<in> set [twoSentenceMessage]. 0x0A \<notin> set (authorUsername m)" by simp
  from summarize_limits [of emptyTaxonomy "[twoSentenceMessage]" "str ''energy''"] h a
  show ?thesis by blast
qed

subsection \<open>No sentence survives\<close>

text \<open>
  Claim C5 as stated fails: no sentence document survives for the one message \<open>The.\<close>
  (a stop word), and \<open>summarize\<close> returns the fixed sentence with no selected id, not
  the message as a bullet with its id, which is what \<open>fallback\<close> would return.
\<close>

theorem summarize_fallback_counterexample:
  "length [stopwordMessage] > 0
   \<and> buildSentenceDocs [stopwordMessage] = []
   \<and> summarize emptyTaxonomy [stopwordMessage] (str ''energy'') = emptyResult
   \<and> fallback [stopwordMessage] =
        \<lparr> summary = [0x2022, 0x20] @ str ''sam: The.'',
          tokensUsed = \<lparr> inputTokens = 0, outputTokens = 0 \<rparr>, cost = 0, selectedIds = [str ''m1''] \<rparr>
   \<and> selectedIds (summarize emptyTaxonomy [stopwordMessage] (str ''energy'')) \<noteq> [str ''m1'']
   \<and> summarize emptyTaxonomy [stopwordMessage] (str ''energy'') \<noteq> fallback [stopwordMessage]"
proof -
  have e: "summarize emptyTaxonomy [stopwordMessage] (str ''energy'') = emptyResult"
    by (rule summarize_no_sentences) (rule stopwordMessage_docs)
  have n: "selectedIds emptyResult \<noteq> [str ''m1'']" by (simp add: emptyResult_def)
  have "selectedIds (fallback [stopwordMessage]) = [str ''m1'']"
    by (simp add: stopwordMessage_fallback)
  with n have "emptyResult \<noteq> fallback [stopwordMessage]" by auto
  with e n stopwordMessage_docs stopwordMessage_fallback show ?thesis by simp
qed

text \<open>
  Claim C5, amended. For a non-empty message list of which no sentence document
  survives, \<open>summarize\<close> returns the result it returns for an empty list: the fixed
  sentence, no tokens, no cost and no selected id.
\<close>

theorem summarize_no_sentences_result:
  "length msgs > 0 \<and> buildSentenceDocs msgs = []
   \<longrightarrow> summarize find' msgs topic = emptyResult
       \<and> summary (summarize find' msgs topic) = noDiscussion
       \<and> selectedIds (summarize find' msgs topic) = []"
  by (simp add: summarize_no_sentences emptyResult_def)

theorem summarize_no_sentences_result_witness:
  "length [stopwordMessage] > 0 \<and> buildSentenceDocs [stopwordMessage] = []
   \<and> summary (summarize emptyTaxonomy [stopwordMessage] (str ''energy'')) = noDiscussion
   \<and> selectedIds (summarize emptyTaxonomy [stopwordMessage] (str ''energy'')) = []"
proof -
  have h: "length [stopwordMessage] > 0 \<and> buildSentenceDocs [stopwordMessage] = []"
    by (simp add: stopwordMessage_docs)
  from summarize_no_sentences_result [of "[stopwordMessage]" emptyTaxonomy "str ''energy''"] h
  show ?thesis by blast
qed

subsection \<open>The selected ids\<close>

lemma twoSentenceMessage_selected:
  "selectedIds (summarize emptyTaxonomy [twoSentenceMessage] (str ''energy'')) = [str ''m1'', str ''m1'']"
proof -
  define docs where "docs = buildSentenceDocs [twoSentenceMessage]"
  define scores where "scores = sentenceScores emptyTaxonomy docs (str ''energy'')"
  have m: "map (\<lambda>d. (docId d, length (original d))) docs = [(str ''m1'', 14), (str ''m1'', 12)]"
    unfolding docs_def by (rule twoSentenceMessage_docs)
  have "length (map (\<lambda>d. (docId d, length (original d))) docs) = 2" by (simp only: m) simp
  then have l: "length docs = 2" by simp
  then obtain d0 d1 where d: "docs = [d0, d1]"
    by (auto simp: length_Suc_conv numeral_2_eq_2)
  from m have f: "docId d0 = str ''m1''" "docId d1 = str ''m1''"
      "length (original d0) = 14" "length (original d1) = 12"
    unfolding d by simp_all
  have ls: "length scores = 2" by (simp add: scores_def length_sentenceScores l)
  then have "length scores \<le> 4" by simp
  then have "selectByMMR docs scores 4 = [0 ..< length scores]" by (rule selectByMMR_all)
  also have "\<dots> = [0, 1]" unfolding ls by (simp add: upt_rec)
  finally have sel: "selectByMMR docs scores 4 = [0, 1]" .
  have "chosenSentences emptyTaxonomy [twoSentenceMessage] (str ''energy'')
          = enforceCharacterLimit docs (selectByMMR docs scores 4) 380"
    by (simp only: chosenSentences_def Let_def docs_def scores_def)
  also have "\<dots> = enforceCharacterLimit docs [0, 1] 380" by (simp only: sel)
  also have "\<dots> = [d0, d1]"
    unfolding enforceCharacterLimit_def d by (simp add: f Let_def)
  finally have "chosenSentences emptyTaxonomy [twoSentenceMessage] (str ''energy'') = [d0, d1]" .
  then show ?thesis by (simp add: summarize_chosen selectedIds_formatSummary f)
qed

text \<open>
  Claim C10. When a sentence document survives, the selected ids are the ids of the
  documents at a non-empty, strictly increasing list of indices into the document list;
  the position of a document is its index, every selected id is the id of an input
  message, and the ids of the documents are the ids of the messages in input order, each
  as often as the message has documents. An id can occur twice: both sentences of
  \<open>twoSentenceMessage\<close> are selected.
\<close>

theorem selectedIds_order:
  "(buildSentenceDocs msgs \<noteq> [] \<longrightarrow>
      (\<exists>idxs. idxs \<noteq> [] \<and> sorted_wrt (<) idxs \<and> set idxs \<subseteq> {0 ..< length (buildSentenceDocs msgs)}
         \<and> selectedIds (summarize find' msgs topic) = map (\<lambda>i. docId (buildSentenceDocs msgs ! i)) idxs
         \<and> map position (chosenSentences find' msgs topic) = map real idxs)
      \<and> set (selectedIds (summarize find' msgs topic)) \<subseteq> msgId ` set msgs
      \<and> (\<exists>counts. length counts = length msgs
            \<and> map docId (buildSentenceDocs msgs) = concat (map2 (\<lambda>m n. replicate n (msgId m)) msgs counts)))
   \<and> selectedIds (summarize emptyTaxonomy [twoSentenceMessage] (str ''energy'')) = [str ''m1'', str ''m1'']"
proof -
  let ?docs = "buildSentenceDocs msgs"
  let ?chosen = "chosenSentences find' msgs topic"
  have ids: "selectedIds (summarize find' msgs topic) = map docId ?chosen"
    by (simp add: summarize_chosen selectedIds_formatSummary)
  obtain idxs where s: "sorted_wrt (<) idxs" and r: "set idxs \<subseteq> {0 ..< length ?docs}"
    and c: "?chosen = map (\<lambda>i. ?docs ! i) idxs"
    using chosenSentences_indices [of msgs find' topic] by blast
  have pos: "map position ?chosen = map real idxs"
    unfolding c using r buildSentenceDocs_inv [of msgs] by auto
  have sel: "selectedIds (summarize find' msgs topic) = map (\<lambda>i. docId (?docs ! i)) idxs"
    unfolding ids c by simp
  have sub: "set (selectedIds (summarize find' msgs topic)) \<subseteq> msgId ` set msgs"
  proof
    fix x assume "x \<in> set (selectedIds (summarize find' msgs topic))"
    then obtain d where "d \<in> set ?chosen" and x: "x = docId d" unfolding ids by auto
    then have "d \<in> set ?docs" using chosenSentences_subset by blast
    with buildSentenceDocs_inv [of msgs] obtain m where "m \<in> set msgs" and "docId d = msgId m" by blast
    with x show "x \<in> msgId ` set msgs" by simp
  qed
  have ne: "idxs \<noteq> []" if "?docs \<noteq> []"
    using chosenSentences_nonempty [OF that, of find' topic] c by auto
  from ne s r sel pos sub buildSentenceDocs_ids [of msgs] twoSentenceMessage_selected
  show ?thesis by blast
qed

theorem selectedIds_order_witness:
  "buildSentenceDocs [twoSentenceMessage] \<noteq> []
   \<and> set (selectedIds (summarize emptyTaxonomy [twoSentenceMessage] (str ''energy''))) \<subseteq> msgId ` set [twoSentenceMessage]
   \<and> selectedIds (summarize emptyTaxonomy [twoSentenceMessage] (str ''energy'')) = [str ''m1'', str ''m1'']"
proof -
  have h: "buildSentenceDocs [twoSentenceMessage] \<noteq> []"
    using twoSentenceMessage_docs by auto
  from selectedIds_order [of "[twoSentenceMessage]" emptyTaxonomy "str ''energy''"] h
  show ?thesis by blast
qed

subsection \<open>Two runs of \<open>summarize\<close>\<close>

text \<open>
  Two objects of the process outlive a call of \<open>summarize\<close> and are within its reach:
  the regular expression \<open>DECISION_REGEX\<close> of the module, an object with a writable
  \<open>lastIndex\<close>, and the cache of \<open>topicService\<close>, which the other operations of the bot
  write. They are the state of a run. The other regular expressions are literals inside
  the methods, a new object at every evaluation; the stop words are a private set that no
  method writes; a \<open>Map\<close> and a \<open>Set\<close> iterate in the order of insertion, which is the
  order of the lists here and a function of the messages.
\<close>

record SummarizerState =
  decisionLastIndex :: nat
  topicCache :: "(jsstring, Topic) jsmap"

text \<open>\<open>topicService.find(slug)\<close>\<close>

definition topicFind :: "(jsstring, Topic) jsmap \<Rightarrow> jsstring \<Rightarrow> Topic option" where
  "topicFind topics slug' = map_of topics (toLowerCase slug')"

text \<open>
  \<open>RegExp.prototype.test\<close> for an expression that is an alternation of words, as
  \<open>RegExpBuiltinExec\<close> of the language runs it. \<open>matchAt\<close> is the match at one index, which
  ends after the first alternative found there, and \<open>searchFrom\<close> the leftmost match from
  an index on; letters are compared without case. With the flag \<open>g\<close> or \<open>y\<close> the search
  starts at \<open>lastIndex\<close>, and \<open>lastIndex\<close> is set to the end of the match, or to 0 when
  there is none; without them the search starts at 0 and \<open>lastIndex\<close> is left alone.
\<close>

definition matchAt :: "jsstring list \<Rightarrow> jsstring \<Rightarrow> nat \<Rightarrow> nat option" where
  "matchAt alternatives s i =
     map_option (\<lambda>alternative. i + length alternative)
       (List.find (\<lambda>alternative. prefix alternative (map asciiLower (drop i s))) alternatives)"

definition searchFrom :: "jsstring list \<Rightarrow> jsstring \<Rightarrow> nat \<Rightarrow> nat option" where
  "searchFrom alternatives s start =
     Option.bind (List.find (\<lambda>i. matchAt alternatives s i \<noteq> None) [start ..< Suc (length s)])
       (matchAt alternatives s)"

definition regExpTest :: "bool \<Rightarrow> bool \<Rightarrow> jsstring list \<Rightarrow> nat \<Rightarrow> jsstring \<Rightarrow> bool \<times> nat" where
  "regExpTest global sticky alternatives lastIndex s =
     (let start = (if global \<or> sticky then lastIndex else 0)
      in if start > length s then (False, if global \<or> sticky then 0 else lastIndex)
         else (case (if sticky then matchAt alternatives s start else searchFrom alternatives s start) of
                 None \<Rightarrow> (False, if global \<or> sticky then 0 else lastIndex)
               | Some e \<Rightarrow> (True, if global \<or> sticky then e else lastIndex)))"

text \<open>
  \<open>computeSentenceScore\<close>, the loop of \<open>sentences.map\<close> and \<open>summarize\<close> once more, with
  the state passed along: \<open>DECISION_REGEX\<close> is written \<open>/(...)/i\<close>, without \<open>g\<close> and \<open>y\<close>.
\<close>

definition computeSentenceScoreRun ::
  "nat \<Rightarrow> SentenceDoc \<Rightarrow> (jsstring, real) jsmap \<Rightarrow> real \<Rightarrow> jsstring list \<Rightarrow> real \<Rightarrow> real \<Rightarrow> real \<times> nat" where
  "computeSentenceScoreRun lastIndex doc docFreq totalDocs topicTokens index totalCount =
     (let s0 = foldl (\<lambda>score' (token, count).
                        (let tf' = count / docLength doc;
                             df = (case map_of docFreq token of None \<Rightarrow> 1 | Some v \<Rightarrow> v);
                             idf = ln ((totalDocs + 1) / (df + 1)) + 1;
                             topicBoost = (if token \<in> set topicTokens then 1.2 else 1)
                         in score' + tf' * idf * topicBoost))
                     0 (tf doc);
          s1 = (if index \<le> 2 then s0 + 0.2 else s0)
      in case regExpTest False False decisionVerbs lastIndex (normalized doc) of
           (hasDecision, lastIndex') \<Rightarrow>
             (let s2 = (if hasDecision then (if index \<ge> totalCount - 2 then s1 + 0.6 + 0.3 else s1 + 0.6) else s1);
                  s3 = (if list_ex isDigit (original doc) then s2 + 0.2 else s2);
                  s4 = (if stringIncludes (normalized doc) (str ''[link]'') then s3 + 0.2 else s3)
              in (s4, lastIndex')))"

definition sentenceScoresRun :: "SummarizerState \<Rightarrow> SentenceDoc list \<Rightarrow> jsstring \<Rightarrow> real list \<times> SummarizerState" where
  "sentenceScoresRun st sentences topic =
     (let topicInfo = topicFind (topicCache st) topic;
          topicTokens = buildTopicTokens (case topicInfo of None \<Rightarrow> [] | Some t \<Rightarrow> topicKeywords t)
                                         (case topicInfo of None \<Rightarrow> [] | Some t \<Rightarrow> topicBigrams t) topic;
          docFreq = buildDocumentFrequency sentences
      in foldl (\<lambda>(scores, st') (index, sentence).
                  (case computeSentenceScoreRun (decisionLastIndex st') sentence docFreq (real (length sentences))
                          topicTokens (real index) (real (length sentences)) of
                     (score', lastIndex') \<Rightarrow> (scores @ [score'], st'\<lparr> decisionLastIndex := lastIndex' \<rparr>)))
               ([], st) (zip [0 ..< length sentences] sentences))"

definition summarizeRun ::
  "SummarizerState \<Rightarrow> MessageForSummary list \<Rightarrow> jsstring \<Rightarrow> ExtractiveSummaryResult \<times> SummarizerState" where
  "summarizeRun st msgs topic =
     (if length msgs = 0 then (emptyResult, st)
      else
        (let sentences = buildSentenceDocs msgs
         in if length sentences = 0 then (emptyResult, st)
            else
              (case sentenceScoresRun st sentences topic of
                 (scores, st') \<Rightarrow>
                   (let selected = selectByMMR sentences scores 4
                    in if length selected = 0 then (fallback msgs, st')
                       else (let capped = enforceCharacterLimit sentences selected 380
                             in (formatSummary capped, st'))))))"

lemma regExpTest_no_flag:
  "regExpTest False False alternatives lastIndex s = (searchFrom alternatives s 0 \<noteq> None, lastIndex)"
  by (simp add: regExpTest_def split: option.splits)

lemma findSub_prefix_iff:
  "findSub pat t \<noteq> None \<longleftrightarrow> (\<exists>i \<le> length t. prefix pat (drop i t))"
proof (induction t)
  case Nil
  then show ?case by simp
next
  case (Cons c cs)
  show ?case
  proof (cases "prefix pat (c # cs)")
    case True
    then have "prefix pat (drop 0 (c # cs))" by simp
    then have "\<exists>i \<le> length (c # cs). prefix pat (drop i (c # cs))" by blast
    with True show ?thesis by simp
  next
    case False
    have "(\<exists>i \<le> length (c # cs). prefix pat (drop i (c # cs))) \<longleftrightarrow> (\<exists>i \<le> length cs. prefix pat (drop i cs))"
    proof
      assume "\<exists>i \<le> length (c # cs). prefix pat (drop i (c # cs))"
      then obtain i where i: "i \<le> length (c # cs)" "prefix pat (drop i (c # cs))" by blast
      with False obtain j where "i = Suc j" by (cases i) auto
      with i show "\<exists>i \<le> length cs. prefix pat (drop i cs)" by auto
    next
      assume "\<exists>i \<le> length cs. prefix pat (drop i cs)"
      then obtain i where "i \<le> length cs" "prefix pat (drop i cs)" by blast
      then have "Suc i \<le> length (c # cs)" "prefix pat (drop (Suc i) (c # cs))" by simp_all
      then show "\<exists>i \<le> length (c # cs). prefix pat (drop i (c # cs))" by blast
    qed
    with False Cons.IH show ?thesis by (auto split: option.splits)
  qed
qed

lemma matchAt_iff:
  "matchAt alternatives s i \<noteq> None \<longleftrightarrow> (\<exists>alternative \<in> set alternatives. prefix alternative (map asciiLower (drop i s)))"
  by (auto simp: matchAt_def find_None_iff)

lemma find_Some_holds: "List.find P xs = Some x \<Longrightarrow> P x \<and> x \<in> set xs"
  by (induction xs) (auto split: if_splits)

lemma searchFrom_iff:
  "searchFrom alternatives s 0 \<noteq> None \<longleftrightarrow> (\<exists>i \<le> length s. matchAt alternatives s i \<noteq> None)"
proof
  assume "searchFrom alternatives s 0 \<noteq> None"
  then obtain i where "List.find (\<lambda>i. matchAt alternatives s i \<noteq> None) [0 ..< Suc (length s)] = Some i"
    by (auto simp: searchFrom_def bind_eq_None_conv)
  from find_Some_holds [OF this] have m: "matchAt alternatives s i \<noteq> None"
    and r: "i \<in> set [0 ..< Suc (length s)]" by blast+
  from r have "i < Suc (length s)" by (simp only: set_upt atLeastLessThan_iff)
  then have "i \<le> length s" by arith
  with m show "\<exists>i \<le> length s. matchAt alternatives s i \<noteq> None" by blast
next
  assume "\<exists>i \<le> length s. matchAt alternatives s i \<noteq> None"
  then obtain i where i: "i \<le> length s" "matchAt alternatives s i \<noteq> None" by blast
  from i(1) have "0 \<le> i \<and> i < Suc (length s)" by arith
  then have "i \<in> set [0 ..< Suc (length s)]" by (simp only: set_upt atLeastLessThan_iff)
  with i(2) have "List.find (\<lambda>i. matchAt alternatives s i \<noteq> None) [0 ..< Suc (length s)] \<noteq> None"
    unfolding find_None_iff by blast
  then obtain j where j: "List.find (\<lambda>i. matchAt alternatives s i \<noteq> None) [0 ..< Suc (length s)] = Some j"
    by blast
  from find_Some_holds [OF j] have "matchAt alternatives s j \<noteq> None" by blast
  with j show "searchFrom alternatives s 0 \<noteq> None" by (simp add: searchFrom_def)
qed

lemma decisionRegex_test:
  "regExpTest False False decisionVerbs lastIndex s = (hasDecisionVerb s, lastIndex)"
proof -
  have "searchFrom decisionVerbs s 0 \<noteq> None \<longleftrightarrow> hasDecisionVerb s"
    unfolding searchFrom_iff matchAt_iff hasDecisionVerb_def stringIncludes_def findSub_prefix_iff
      list_ex_iff
    by (auto simp: drop_map)
  then show ?thesis by (simp add: regExpTest_no_flag)
qed

lemma computeSentenceScoreRun_eq:
  "computeSentenceScoreRun lastIndex doc docFreq totalDocs topicTokens index totalCount
     = (computeSentenceScore doc docFreq totalDocs topicTokens index totalCount, lastIndex)"
  by (simp add: computeSentenceScoreRun_def computeSentenceScore_def decisionRegex_test Let_def)

lemma foldl_scores:
  "foldl (\<lambda>(scores, st') x. (scores @ [f x], st')) (acc, st) xs = (acc @ map f xs, st)"
  by (induction xs arbitrary: acc) simp_all

lemma sentenceScoresRun_eq:
  "sentenceScoresRun st sentences topic = (sentenceScores (topicFind (topicCache st)) sentences topic, st)"
proof -
  define topicTokens where "topicTokens =
    buildTopicTokens (case topicFind (topicCache st) topic of None \<Rightarrow> [] | Some t \<Rightarrow> topicKeywords t)
                     (case topicFind (topicCache st) topic of None \<Rightarrow> [] | Some t \<Rightarrow> topicBigrams t) topic"
  define f where "f = (\<lambda>(index, sentence).
     computeSentenceScore sentence (buildDocumentFrequency sentences) (real (length sentences)) topicTokens
       (real index) (real (length sentences)))"
  have "sentenceScoresRun st sentences topic =
      foldl (\<lambda>(scores, st') x. (scores @ [f x], st')) ([], st) (zip [0 ..< length sentences] sentences)"
    unfolding sentenceScoresRun_def Let_def computeSentenceScoreRun_eq topicTokens_def f_def
    by (intro arg_cong [where f = "\<lambda>g. foldl g ([], st) (zip [0 ..< length sentences] sentences)"])
       (auto simp: fun_eq_iff)
  also have "\<dots> = (map f (zip [0 ..< length sentences] sentences), st)"
    by (simp add: foldl_scores)
  finally show ?thesis
    by (simp add: sentenceScores_def Let_def f_def topicTokens_def)
qed

lemma summarizeRun_eq:
  "summarizeRun st msgs topic = (summarize (topicFind (topicCache st)) msgs topic, st)"
  by (simp add: summarizeRun_def summarize_def sentenceScoresRun_eq Let_def)

text \<open>
  What the flags are for: had \<open>DECISION_REGEX\<close> the flag \<open>g\<close>, the same test on the same
  sentence would succeed once and fail the next time.
\<close>

lemma regExpTest_global_example:
  "regExpTest True False decisionVerbs 0 (str ''ship it'') = (True, 4)"
  "regExpTest True False decisionVerbs 4 (str ''ship it'') = (False, 0)"
  by code_simp+

text \<open>
  Claim C3. Two runs of \<open>summarize\<close> on the same messages and the same topic, in two
  states of the process with the same topics in the cache, return the same summary and
  the same selected ids, whatever \<open>lastIndex\<close> of \<open>DECISION_REGEX\<close> is in the one and in the
  other; a run leaves the cache as it was, and the same call repeated in the state that
  the first run left returns the same result.
\<close>

theorem summarizeRun_deterministic:
  "topicCache st = topicCache st'
   \<longrightarrow> summary (fst (summarizeRun st msgs topic)) = summary (fst (summarizeRun st' msgs topic))
       \<and> selectedIds (fst (summarizeRun st msgs topic)) = selectedIds (fst (summarizeRun st' msgs topic))
       \<and> topicCache (snd (summarizeRun st msgs topic)) = topicCache st
       \<and> fst (summarizeRun (snd (summarizeRun st msgs topic)) msgs topic) = fst (summarizeRun st msgs topic)"
  by (simp add: summarizeRun_eq)

theorem summarizeRun_deterministic_witness:
  "topicCache \<lparr> decisionLastIndex = 0, topicCache = [] \<rparr> = topicCache \<lparr> decisionLastIndex = 7, topicCache = [] \<rparr>
   \<and> summary (fst (summarizeRun \<lparr> decisionLastIndex = 0, topicCache = [] \<rparr> [twoSentenceMessage] (str ''energy'')))
       = summary (fst (summarizeRun \<lparr> decisionLastIndex = 7, topicCache = [] \<rparr> [twoSentenceMessage] (str ''energy'')))
   \<and> selectedIds (fst (summarizeRun \<lparr> decisionLastIndex = 0, topicCache = [] \<rparr> [twoSentenceMessage] (str ''energy'')))
       = [str ''m1'', str ''m1'']
   \<and> selectedIds (fst (summarizeRun \<lparr> decisionLastIndex = 7, topicCache = [] \<rparr> [twoSentenceMessage] (str ''energy'')))
       = [str ''m1'', str ''m1'']"
proof -
  have e: "topicFind [] = emptyTaxonomy"
    by (simp add: fun_eq_iff topicFind_def emptyTaxonomy_def)
  have a: "selectedIds (fst (summarizeRun \<lparr> decisionLastIndex = 0, topicCache = [] \<rparr> [twoSentenceMessage] (str ''energy'')))
       = [str ''m1'', str ''m1'']"
    by (simp only: summarizeRun_eq fst_conv SummarizerState.simps e twoSentenceMessage_selected)
  have c: "topicCache \<lparr> decisionLastIndex = 0, topicCache = [] \<rparr> = topicCache \<lparr> decisionLastIndex = 7, topicCache = [] \<rparr>"
    by simp
  from summarizeRun_deterministic [of "\<lparr> decisionLastIndex = 0, topicCache = [] \<rparr>"
      "\<lparr> decisionLastIndex = 7, topicCache = [] \<rparr>" "[twoSentenceMessage]" "str ''energy''"] a c
  show ?thesis by metis
qed

end
